theory Spec2Isabelle
  imports Main
begin

section \<open>Machine integers\<close>

text \<open>
  Every counter of \<^verbatim>\<open>P2/main.cpp\<close> is a C++ \<^verbatim>\<open>int\<close>. The model keeps them as
  \<open>int\<close> and writes the 32-bit two's-complement wrap-around out at every \<^verbatim>\<open>+=\<close>,
  \<^verbatim>\<open>-=\<close>, \<^verbatim>\<open>++\<close> and \<^verbatim>\<open>--\<close>. (Signed overflow is undefined behaviour in C++;
  the wrap-around is what the usual targets compute.)
\<close>

definition int32 :: "int \<Rightarrow> bool" where
  "int32 x = (- 2147483648 \<le> x \<and> x \<le> 2147483647)"

definition wrap32 :: "int \<Rightarrow> int" where
  "wrap32 x = (x + 2147483648) mod 4294967296 - 2147483648"

definition add32 :: "int \<Rightarrow> int \<Rightarrow> int" where
  "add32 a b = wrap32 (a + b)"

definition sub32 :: "int \<Rightarrow> int \<Rightarrow> int" where
  "sub32 a b = wrap32 (a - b)"

section \<open>Standard output\<close>

text \<open>
  What the program prints, one constructor per message (the prompts and the banner of
  \<^verbatim>\<open>main\<close> are left out). \<open>Entered\<close> and \<open>Finished\<close> carry the party id, the
  instance id (and the duration) and the status table that \<^verbatim>\<open>print_status\<close> prints
  under the same output lock; \<open>Summary\<close> carries the two columns and the two totals.
\<close>

datatype out_event =
    ErrMaxInstances
  | WarnSwap
  | WarnClamp
  | ErrPlayerCounts
  | Entered int int int "string list"
  | ErrNoInstance int
  | Finished int int "string list"
  | ArrivalAdded int int int
  | Summary "int list" "int list" int int

section \<open>Input validation of \<^verbatim>\<open>main\<close>\<close>

text \<open>
  Lines 194 to 212 of \<^verbatim>\<open>main\<close>, statement by statement. The result is the output
  printed and either the exit code of the early \<^verbatim>\<open>return 1\<close> or the pair
  \<open>(t1, t2)\<close> the run continues with.
\<close>

definition input_validation ::
  "int \<Rightarrow> int \<Rightarrow> int \<Rightarrow> int \<Rightarrow> int \<Rightarrow> int \<Rightarrow> out_event list \<times> (int + int \<times> int)" where
  "input_validation n tanks healers dps t1 t2 =
     (if n \<le> 0 then ([ErrMaxInstances], Inl 1)
      else
        let t1a = (if t1 < 0 then 0 else t1);
            t2a = (if t2 < 0 then 0 else t2);
            swp = (t1a > t2a);
            t1b = (if swp then t2a else t1a);
            t2b = (if swp then t1a else t2a);
            o1 = (if swp then [WarnSwap] else []);
            clp = (t2b > 15);
            t2c = (if clp then 15 else t2b);
            o2 = (if clp then [WarnClamp] else [])
        in if tanks < 0 \<or> healers < 0 \<or> dps < 0
           then (o1 @ o2 @ [ErrPlayerCounts], Inl 1)
           else (o1 @ o2, Inr (t1b, t2c)))"

section \<open>The player pool\<close>

record pool =
  g_tanks :: int
  g_healers :: int
  g_dps :: int

text \<open>\<^verbatim>\<open>try_form_party\<close>: the body runs under \<^verbatim>\<open>g_data_mutex\<close>.\<close>

definition try_form_party :: "pool \<Rightarrow> bool \<times> pool" where
  "try_form_party p =
     (if g_tanks p \<ge> 1 \<and> g_healers p \<ge> 1 \<and> g_dps p \<ge> 3
      then (True, p\<lparr>g_tanks := sub32 (g_tanks p) 1,
                     g_healers := sub32 (g_healers p) 1,
                     g_dps := sub32 (g_dps p) 3\<rparr>)
      else (False, p))"

text \<open>The locked block of one arrival cycle (lines 154 to 159).\<close>

definition add_players :: "int \<Rightarrow> int \<Rightarrow> int \<Rightarrow> pool \<Rightarrow> pool" where
  "add_players at ah ad p =
     p\<lparr>g_tanks := add32 (g_tanks p) at,
       g_healers := add32 (g_healers p) ah,
       g_dps := add32 (g_dps p) ad\<rparr>"

definition pool32 :: "pool \<Rightarrow> bool" where
  "pool32 p = (int32 (g_tanks p) \<and> int32 (g_healers p) \<and> int32 (g_dps p))"

section \<open>The counting semaphore\<close>

text \<open>
  \<^verbatim>\<open>CountingSemaphore\<close>: the state is its \<^verbatim>\<open>count\<close>. \<^verbatim>\<open>acquire\<close> waits on the
  condition variable until \<^verbatim>\<open>count > 0\<close>; a caller that has to wait takes no step
  (\<open>None\<close>).
\<close>

definition acquire :: "int \<Rightarrow> int option" where
  "acquire c = (if c > 0 then Some (sub32 c 1) else None)"

definition release :: "int \<Rightarrow> int" where
  "release c = add32 c 1"

section \<open>The threads\<close>

text \<open>
  A party thread running \<^verbatim>\<open>run_dungeon\<close>: its arguments, its locals and where it
  stands. Each control point is the start of one block that runs under a lock (or of the
  semaphore operation), so one step of a thread is one critical section.
\<close>

datatype wpc = WStart | WAcquired | WClaimed | WRunning | WUpdated | WPrinted | WDone

record worker =
  party_id :: int
  min_time :: int
  max_time :: int
  duration :: int
  instance_id :: int
  w_pc :: wpc

datatype dpc = DTry | DSpawn | DCheck | DSleep | DJoinArrival | DJoinParties nat | DExit

datatype apc = ALoop | APrint | ADone

text \<open>
  The globals, the locals of \<^verbatim>\<open>main\<close> (from line 241 on) and of the arrival thread,
  and four history variables (\<open>h_\<close>), which no step reads: the number of successful
  \<^verbatim>\<open>try_form_party\<close> calls, the result of the last call, whether the check of line 260
  has seen \<^verbatim>\<open>g_arrival_done\<close> set (and the value of \<^verbatim>\<open>formed_any\<close> when it first
  did), and the number of calls made since. \<^verbatim>\<open>g_time_served\<close> holds sums of
  integer durations, kept as integers.
\<close>

record sys =
  g_max_instances :: int
  g_instance_slots :: int
  g_instance_status :: "string list"
  g_parties_served :: "int list"
  g_time_served :: "int list"
  g_pool :: pool
  g_arrival_done :: bool
  cout :: "out_event list"
  d_pc :: dpc
  main_t1 :: int
  main_t2 :: int
  next_party_id :: int
  formed_any :: bool
  party_threads :: "worker list"
  total_parties_all :: int
  total_time_all :: int
  a_pc :: apc
  cycles :: int
  a_i :: int
  a_at :: int
  a_ah :: int
  a_ad :: int
  h_composed :: nat
  h_last_try :: "bool option"
  h_seen_done :: bool
  h_seen_formed :: bool
  h_tries_after :: nat

text \<open>\<^verbatim>\<open>print_status\<close>: the status of the instances 0 to n - 1, as printed.\<close>

definition print_status :: "sys \<Rightarrow> string list" where
  "print_status s = take (nat (g_max_instances s)) (g_instance_status s)"

text \<open>
  The scan of lines 82 to 88: the first index below \<^verbatim>\<open>g_max_instances\<close> whose status
  is \<^verbatim>\<open>"empty"\<close> is marked \<^verbatim>\<open>"active"\<close>; without one \<^verbatim>\<open>instance_id\<close> stays -1.
\<close>

fun find_empty :: "string list \<Rightarrow> nat \<Rightarrow> nat option" where
  "find_empty [] i = None"
| "find_empty (x # xs) i = (if x = ''empty'' then Some i else find_empty xs (Suc i))"

definition claim_instance :: "int \<Rightarrow> string list \<Rightarrow> int \<times> string list" where
  "claim_instance n st =
     (case find_empty (take (nat n) st) 0 of
        None \<Rightarrow> (- 1, st)
      | Some i \<Rightarrow> (int i, st[i := ''active'']))"

text \<open>
  The duration is drawn from \<^verbatim>\<open>uniform_int_distribution(min_time, max_time)\<close>: any
  value between the bounds. (With \<^verbatim>\<open>min_time > max_time\<close> the distribution is
  undefined, and every value is allowed for.)
\<close>

definition dur_ok :: "int \<Rightarrow> int \<Rightarrow> int \<Rightarrow> bool" where
  "dur_ok lo hi d = (if lo \<le> hi then lo \<le> d \<and> d \<le> hi else True)"

text \<open>
  One step of \<^verbatim>\<open>run_dungeon\<close>; \<open>d\<close> is the duration drawn (used by the first step
  only). The steps: draw and acquire (73, 76); claim (79 to 89); print entry (92 to 97);
  sleep, then update the statistics or print the error (100 to 111); print finish
  (114 to 118); release (121).
\<close>

definition run_dungeon_step :: "int \<Rightarrow> worker \<Rightarrow> sys \<Rightarrow> (worker \<times> sys) option" where
  "run_dungeon_step d w s =
     (case w_pc w of
        WStart \<Rightarrow>
          (if dur_ok (min_time w) (max_time w) d
           then (case acquire (g_instance_slots s) of
                   None \<Rightarrow> None
                 | Some c \<Rightarrow> Some (w\<lparr>duration := d, w_pc := WAcquired\<rparr>,
                                    s\<lparr>g_instance_slots := c\<rparr>))
           else None)
      | WAcquired \<Rightarrow>
          (case claim_instance (g_max_instances s) (g_instance_status s) of
             (i, st) \<Rightarrow> Some (w\<lparr>instance_id := i, w_pc := WClaimed\<rparr>,
                               s\<lparr>g_instance_status := st\<rparr>))
      | WClaimed \<Rightarrow>
          Some (w\<lparr>w_pc := WRunning\<rparr>,
                s\<lparr>cout := cout s @
                  [Entered (party_id w) (instance_id w) (duration w) (print_status s)]\<rparr>)
      | WRunning \<Rightarrow>
          (if instance_id w \<ge> 0
           then Some (w\<lparr>w_pc := WUpdated\<rparr>,
                      s\<lparr>g_instance_status :=
                          (g_instance_status s)[nat (instance_id w) := ''empty''],
                        g_parties_served :=
                          (g_parties_served s)[nat (instance_id w) :=
                             add32 (g_parties_served s ! nat (instance_id w)) 1],
                        g_time_served :=
                          (g_time_served s)[nat (instance_id w) :=
                             g_time_served s ! nat (instance_id w) + duration w]\<rparr>)
           else Some (w\<lparr>w_pc := WUpdated\<rparr>,
                      s\<lparr>cout := cout s @ [ErrNoInstance (party_id w)]\<rparr>))
      | WUpdated \<Rightarrow>
          Some (w\<lparr>w_pc := WPrinted\<rparr>,
                s\<lparr>cout := cout s @
                  [Finished (party_id w) (instance_id w) (print_status s)]\<rparr>)
      | WPrinted \<Rightarrow>
          Some (w\<lparr>w_pc := WDone\<rparr>, s\<lparr>g_instance_slots := release (g_instance_slots s)\<rparr>)
      | WDone \<Rightarrow> None)"

text \<open>
  One step of \<^verbatim>\<open>arrival_thread_func\<close>: the locked addition of one cycle with the three
  numbers drawn (0 to 2 tanks, 0 to 2 healers, 0 to 6 dps), its message, and after the
  last cycle the locked \<^verbatim>\<open>g_arrival_done = true\<close>.
\<close>

definition arrival_thread_func_step :: "int \<Rightarrow> int \<Rightarrow> int \<Rightarrow> sys \<Rightarrow> sys option" where
  "arrival_thread_func_step at ah ad s =
     (case a_pc s of
        ALoop \<Rightarrow>
          (if a_i s < cycles s
           then (if 0 \<le> at \<and> at \<le> 2 \<and> 0 \<le> ah \<and> ah \<le> 2 \<and> 0 \<le> ad \<and> ad \<le> 6
                 then Some (s\<lparr>g_pool := add_players at ah ad (g_pool s),
                              a_at := at, a_ah := ah, a_ad := ad, a_pc := APrint\<rparr>)
                 else None)
           else Some (s\<lparr>g_arrival_done := True, a_pc := ADone\<rparr>))
      | APrint \<Rightarrow>
          Some (s\<lparr>cout := cout s @ [ArrivalAdded (a_at s) (a_ah s) (a_ad s)],
                  a_i := add32 (a_i s) 1, a_pc := ALoop\<rparr>)
      | ADone \<Rightarrow> None)"

text \<open>The history variables, updated at a call of \<^verbatim>\<open>try_form_party\<close> and at the check.\<close>

definition note_try :: "bool \<Rightarrow> sys \<Rightarrow> sys" where
  "note_try r s =
     s\<lparr>h_composed := h_composed s + (if r then 1 else 0),
       h_last_try := Some r,
       h_tries_after := h_tries_after s + (if h_seen_done s then 1 else 0)\<rparr>"

definition note_check :: "sys \<Rightarrow> sys" where
  "note_check s =
     (if g_arrival_done s \<and> \<not> h_seen_done s
      then s\<lparr>h_seen_done := True, h_seen_formed := formed_any s\<rparr>
      else s)"

definition new_party :: "int \<Rightarrow> int \<Rightarrow> int \<Rightarrow> worker" where
  "new_party pid lo hi =
     \<lparr>party_id = pid, min_time = lo, max_time = hi, duration = 0,
      instance_id = - 1, w_pc = WStart\<rparr>"

definition sum32 :: "int list \<Rightarrow> int" where
  "sum32 xs = fold (\<lambda>x acc. add32 acc x) xs 0"

text \<open>
  One step of \<^verbatim>\<open>main\<close> from line 247 on: the call of \<^verbatim>\<open>try_form_party\<close> in the
  inner loop condition; the loop body (start the thread); the locked check of line 260;
  the sleep, after which the next iteration resets \<^verbatim>\<open>formed_any\<close>; the joins, each
  waiting for its thread to end; the final summary.
\<close>

definition main_step :: "sys \<Rightarrow> sys option" where
  "main_step s =
     (case d_pc s of
        DTry \<Rightarrow>
          (case try_form_party (g_pool s) of
             (r, p) \<Rightarrow> Some (note_try r (s\<lparr>g_pool := p,
                                             d_pc := (if r then DSpawn else DCheck)\<rparr>)))
      | DSpawn \<Rightarrow>
          Some (s\<lparr>next_party_id := add32 (next_party_id s) 1,
                  party_threads := party_threads s @
                    [new_party (add32 (next_party_id s) 1) (main_t1 s) (main_t2 s)],
                  formed_any := True,
                  d_pc := DTry\<rparr>)
      | DCheck \<Rightarrow>
          Some ((note_check s)\<lparr>d_pc := (if g_arrival_done s \<and> \<not> formed_any s
                                        then DJoinArrival else DSleep)\<rparr>)
      | DSleep \<Rightarrow> Some (s\<lparr>formed_any := False, d_pc := DTry\<rparr>)
      | DJoinArrival \<Rightarrow>
          (if a_pc s = ADone then Some (s\<lparr>d_pc := DJoinParties 0\<rparr>) else None)
      | DJoinParties k \<Rightarrow>
          (if k < length (party_threads s)
           then (if w_pc (party_threads s ! k) = WDone
                 then Some (s\<lparr>d_pc := DJoinParties (Suc k)\<rparr>)
                 else None)
           else Some (s\<lparr>total_parties_all := sum32 (take (nat (g_max_instances s)) (g_parties_served s)),
                        total_time_all := sum_list (take (nat (g_max_instances s)) (g_time_served s)),
                        cout := cout s @
                          [Summary (take (nat (g_max_instances s)) (g_parties_served s))
                                   (take (nat (g_max_instances s)) (g_time_served s))
                                   (sum32 (take (nat (g_max_instances s)) (g_parties_served s)))
                                   (sum_list (take (nat (g_max_instances s)) (g_time_served s)))],
                        d_pc := DExit\<rparr>))
      | DExit \<Rightarrow> None)"

section \<open>The system: interleaved steps\<close>

text \<open>
  Every shared variable is read and written under \<^verbatim>\<open>g_data_mutex\<close> (the semaphore
  under its own mutex), so a run is an interleaving of the critical sections above. A
  label names the thread that moves and what it draws: the dispatcher, the arrival thread
  with its three numbers, or party thread \<open>k\<close> of \<^verbatim>\<open>party_threads\<close> with its duration.
  \<open>None\<close>: the thread cannot move (it waits, or has ended).
\<close>

datatype label = Disp | Arr int int int | Work nat int

fun step :: "label \<Rightarrow> sys \<Rightarrow> sys option" where
  "step Disp s = main_step s"
| "step (Arr at ah ad) s = arrival_thread_func_step at ah ad s"
| "step (Work k d) s =
     (if k < length (party_threads s)
      then (case run_dungeon_step d (party_threads s ! k) s of
              None \<Rightarrow> None
            | Some (w, s') \<Rightarrow> Some (s'\<lparr>party_threads := (party_threads s')[k := w]\<rparr>))
      else None)"

fun exec :: "label list \<Rightarrow> sys \<Rightarrow> sys option" where
  "exec [] s = Some s"
| "exec (l # ls) s = (case step l s of None \<Rightarrow> None | Some s' \<Rightarrow> exec ls s')"

text \<open>
  The state after line 244 of \<^verbatim>\<open>main\<close>: the shared resources prepared for \<open>n\<close>
  instances, the pool filled, the arrival thread started with 10 cycles.
\<close>

definition init_sys :: "int \<Rightarrow> int \<Rightarrow> int \<Rightarrow> int \<Rightarrow> int \<Rightarrow> int \<Rightarrow> sys" where
  "init_sys n tanks healers dps lo hi =
     \<lparr>g_max_instances = n,
      g_instance_slots = n,
      g_instance_status = replicate (nat n) ''empty'',
      g_parties_served = replicate (nat n) 0,
      g_time_served = replicate (nat n) 0,
      g_pool = \<lparr>g_tanks = tanks, g_healers = healers, g_dps = dps\<rparr>,
      g_arrival_done = False,
      cout = [],
      d_pc = DTry,
      main_t1 = lo,
      main_t2 = hi,
      next_party_id = 0,
      formed_any = False,
      party_threads = [],
      total_parties_all = 0,
      total_time_all = 0,
      a_pc = ALoop,
      cycles = 10,
      a_i = 0,
      a_at = 0,
      a_ah = 0,
      a_ad = 0,
      h_composed = 0,
      h_last_try = None,
      h_seen_done = False,
      h_seen_formed = False,
      h_tries_after = 0\<rparr>"

text \<open>\<^verbatim>\<open>main\<close> up to line 244: the inputs are C++ \<^verbatim>\<open>int\<close> values and pass the validation.\<close>

definition main_start :: "int \<Rightarrow> int \<Rightarrow> int \<Rightarrow> int \<Rightarrow> int \<Rightarrow> int \<Rightarrow> sys option" where
  "main_start n tanks healers dps lo hi =
     (if int32 n \<and> int32 tanks \<and> int32 healers \<and> int32 dps \<and> int32 lo \<and> int32 hi
      then (case input_validation n tanks healers dps lo hi of
              (out, Inl code) \<Rightarrow> None
            | (out, Inr (a, b)) \<Rightarrow> Some ((init_sys n tanks healers dps a b)\<lparr>cout := out\<rparr>))
      else None)"

text \<open>A run: \<^verbatim>\<open>main\<close> up to line 244, then the steps named by the labels.\<close>

definition run :: "int \<Rightarrow> int \<Rightarrow> int \<Rightarrow> int \<Rightarrow> int \<Rightarrow> int \<Rightarrow> label list \<Rightarrow> sys option" where
  "run n tanks healers dps lo hi ls =
     (case main_start n tanks healers dps lo hi of
        None \<Rightarrow> None
      | Some s0 \<Rightarrow> exec ls s0)"

section \<open>\<^verbatim>\<open>try_form_party\<close> called by several threads\<close>

text \<open>
  \<^verbatim>\<open>try_form_party\<close> statement by statement, with \<^verbatim>\<open>g_data_mutex\<close> explicit: a
  caller locks the mutex (and cannot move while another holds it), evaluates the
  condition, runs the three subtractions one by one, and unlocks as it returns
  (the \<^verbatim>\<open>lock_guard\<close> goes out of scope). A schedule is the list of the callers that
  move, in order.
\<close>

datatype cpc = CStart | CCheck | CTanks | CHealers | CDps | CUnlock bool | CReturned bool

record conc =
  g_data_mutex :: bool
  c_pool :: pool
  callers :: "cpc list"

definition try_form_party_step :: "nat \<Rightarrow> conc \<Rightarrow> conc option" where
  "try_form_party_step k c =
     (if k < length (callers c)
      then (case callers c ! k of
              CStart \<Rightarrow>
                (if g_data_mutex c then None
                 else Some (c\<lparr>g_data_mutex := True, callers := (callers c)[k := CCheck]\<rparr>))
            | CCheck \<Rightarrow>
                Some (c\<lparr>callers := (callers c)[k :=
                   (if g_tanks (c_pool c) \<ge> 1 \<and> g_healers (c_pool c) \<ge> 1 \<and> g_dps (c_pool c) \<ge> 3
                    then CTanks else CUnlock False)]\<rparr>)
            | CTanks \<Rightarrow>
                Some (c\<lparr>c_pool := (c_pool c)\<lparr>g_tanks := sub32 (g_tanks (c_pool c)) 1\<rparr>,
                        callers := (callers c)[k := CHealers]\<rparr>)
            | CHealers \<Rightarrow>
                Some (c\<lparr>c_pool := (c_pool c)\<lparr>g_healers := sub32 (g_healers (c_pool c)) 1\<rparr>,
                        callers := (callers c)[k := CDps]\<rparr>)
            | CDps \<Rightarrow>
                Some (c\<lparr>c_pool := (c_pool c)\<lparr>g_dps := sub32 (g_dps (c_pool c)) 3\<rparr>,
                        callers := (callers c)[k := CUnlock True]\<rparr>)
            | CUnlock r \<Rightarrow>
                Some (c\<lparr>g_data_mutex := False, callers := (callers c)[k := CReturned r]\<rparr>)
            | CReturned r \<Rightarrow> None)
      else None)"

fun conc_exec :: "nat list \<Rightarrow> conc \<Rightarrow> conc option" where
  "conc_exec [] c = Some c"
| "conc_exec (k # ks) c =
     (case try_form_party_step k c of None \<Rightarrow> None | Some c' \<Rightarrow> conc_exec ks c')"

definition conc_init :: "nat \<Rightarrow> pool \<Rightarrow> conc" where
  "conc_init k p = \<lparr>g_data_mutex = False, c_pool = p, callers = replicate k CStart\<rparr>"

section \<open>Counting threads and slots\<close>

text \<open>
  \<open>cnt P xs\<close> is the number of elements of \<open>xs\<close> that satisfy \<open>P\<close>. A party thread
  holds a permit of the semaphore from its \<^verbatim>\<open>acquire\<close> to its \<^verbatim>\<open>release\<close>; it
  occupies an instance from the claim to the update of the statistics, and is in transit
  while it holds a permit without occupying an instance; it has been served once the
  update is done.
\<close>

definition cnt :: "('a \<Rightarrow> bool) \<Rightarrow> 'a list \<Rightarrow> int" where
  "cnt P xs = int (length (filter P xs))"

definition holds_permit :: "worker \<Rightarrow> bool" where
  "holds_permit w = (w_pc w = WAcquired \<or> w_pc w = WClaimed \<or> w_pc w = WRunning
                     \<or> w_pc w = WUpdated \<or> w_pc w = WPrinted)"

definition occupies :: "worker \<Rightarrow> bool" where
  "occupies w = (w_pc w = WClaimed \<or> w_pc w = WRunning)"

definition in_transit :: "worker \<Rightarrow> bool" where
  "in_transit w = (w_pc w = WAcquired \<or> w_pc w = WUpdated \<or> w_pc w = WPrinted)"

definition served :: "worker \<Rightarrow> bool" where
  "served w = (w_pc w = WUpdated \<or> w_pc w = WPrinted \<or> w_pc w = WDone)"

definition active_slots :: "sys \<Rightarrow> int" where
  "active_slots s = cnt (\<lambda>x. x = ''active'') (g_instance_status s)"

definition adds :: "sys \<Rightarrow> int" where
  "adds s = a_i s + (if a_pc s = APrint then 1 else 0)"

text \<open>The steps the arrival thread still has to take.\<close>

definition arrival_left :: "sys \<Rightarrow> nat" where
  "arrival_left s =
     (case a_pc s of
        ALoop \<Rightarrow> 2 * nat (cycles s - a_i s) + 1
      | APrint \<Rightarrow> 2 * nat (cycles s - a_i s)
      | ADone \<Rightarrow> 0)"

fun left_loop :: "dpc \<Rightarrow> bool" where
  "left_loop DJoinArrival = True"
| "left_loop (DJoinParties k) = True"
| "left_loop DExit = True"
| "left_loop pc = False"

text \<open>The callers of the statement-level model: where they stand.\<close>

fun in_cs :: "cpc \<Rightarrow> bool" where
  "in_cs CStart = False"
| "in_cs (CReturned r) = False"
| "in_cs x = True"

fun won :: "cpc \<Rightarrow> bool" where
  "won CTanks = True"
| "won CHealers = True"
| "won CDps = True"
| "won (CUnlock r) = r"
| "won (CReturned r) = r"
| "won x = False"

fun lost :: "cpc \<Rightarrow> bool" where
  "lost (CUnlock r) = (\<not> r)"
| "lost (CReturned r) = (\<not> r)"
| "lost x = False"

fun took_tanks :: "cpc \<Rightarrow> bool" where
  "took_tanks CHealers = True"
| "took_tanks CDps = True"
| "took_tanks (CUnlock r) = r"
| "took_tanks (CReturned r) = r"
| "took_tanks x = False"

fun took_healers :: "cpc \<Rightarrow> bool" where
  "took_healers CDps = True"
| "took_healers (CUnlock r) = r"
| "took_healers (CReturned r) = r"
| "took_healers x = False"

fun took_dps :: "cpc \<Rightarrow> bool" where
  "took_dps (CUnlock r) = r"
| "took_dps (CReturned r) = r"
| "took_dps x = False"

fun returned :: "cpc \<Rightarrow> bool" where
  "returned (CReturned r) = True"
| "returned x = False"

section \<open>Invariants\<close>

text \<open>
  The registry and the semaphore: sizes, the two status strings, the permits, and one
  occupying thread per active instance.
\<close>

definition inv_reg :: "sys \<Rightarrow> bool" where
  "inv_reg s =
     (0 \<le> g_max_instances s \<and> int32 (g_max_instances s)
      \<and> length (g_instance_status s) = nat (g_max_instances s)
      \<and> length (g_parties_served s) = nat (g_max_instances s)
      \<and> length (g_time_served s) = nat (g_max_instances s)
      \<and> set (g_instance_status s) \<subseteq> {''empty'', ''active''}
      \<and> 0 \<le> g_instance_slots s
      \<and> g_instance_slots s + cnt holds_permit (party_threads s) = g_max_instances s
      \<and> active_slots s = cnt occupies (party_threads s)
      \<and> (\<forall>k < length (party_threads s). occupies (party_threads s ! k) \<longrightarrow>
            0 \<le> instance_id (party_threads s ! k)
            \<and> instance_id (party_threads s ! k) < g_max_instances s
            \<and> g_instance_status s ! nat (instance_id (party_threads s ! k)) = ''active'')
      \<and> (\<forall>k < length (party_threads s). \<forall>j < length (party_threads s).
            k \<noteq> j \<and> occupies (party_threads s ! k) \<and> occupies (party_threads s ! j) \<longrightarrow>
            instance_id (party_threads s ! k) \<noteq> instance_id (party_threads s ! j)))"

text \<open>The arrival thread and its flag.\<close>

definition inv_arr :: "sys \<Rightarrow> bool" where
  "inv_arr s =
     (cycles s = 10 \<and> 0 \<le> a_i s \<and> a_i s \<le> cycles s
      \<and> (a_pc s = APrint \<longrightarrow> a_i s < cycles s)
      \<and> (a_pc s = ADone \<longrightarrow> a_i s = cycles s)
      \<and> (g_arrival_done s \<longleftrightarrow> a_pc s = ADone))"

text \<open>The dispatcher loop and its history variables.\<close>

definition inv_disp :: "sys \<Rightarrow> bool" where
  "inv_disp s =
     ((left_loop (d_pc s) \<longrightarrow>
         g_arrival_done s \<and> \<not> formed_any s \<and> h_last_try s = Some False \<and> h_seen_done s
         \<and> (h_seen_formed s \<longrightarrow> 1 \<le> h_tries_after s))
      \<and> (d_pc s = DCheck \<longrightarrow> h_last_try s = Some False)
      \<and> (h_seen_done s \<and> h_seen_formed s \<and> h_tries_after s = 0 \<longrightarrow>
            d_pc s = DSleep \<or> d_pc s = DTry)
      \<and> (h_seen_done s \<longrightarrow> g_arrival_done s)
      \<and> (\<not> h_seen_done s \<longrightarrow> h_tries_after s = 0))"

text \<open>
  The statistics: parties served against threads and successful calls. The bound on the
  dps counter keeps every counter of parties inside the 32-bit range.
\<close>

definition inv_cnt :: "int \<Rightarrow> sys \<Rightarrow> bool" where
  "inv_cnt dps0 s =
     (sum_list (g_parties_served s) = cnt served (party_threads s)
      \<and> (\<forall>x \<in> set (g_parties_served s). 0 \<le> x)
      \<and> int (length (party_threads s)) + (if d_pc s = DSpawn then 1 else 0) = int (h_composed s)
      \<and> next_party_id s = int (length (party_threads s))
      \<and> 3 * int (h_composed s) + g_dps (g_pool s) \<le> dps0 + 6 * adds s
      \<and> pool32 (g_pool s) \<and> int32 dps0
      \<and> (\<forall>j. d_pc s = DJoinParties j \<longrightarrow>
            j \<le> length (party_threads s) \<and> (\<forall>i < j. w_pc (party_threads s ! i) = WDone))
      \<and> (d_pc s = DExit \<longrightarrow>
            (\<forall>w \<in> set (party_threads s). w_pc w = WDone)
            \<and> total_parties_all s = sum_list (g_parties_served s)))"

text \<open>The pool, for initial counts that leave room for the ten arrival cycles.\<close>

definition inv_pool :: "int \<Rightarrow> int \<Rightarrow> int \<Rightarrow> sys \<Rightarrow> bool" where
  "inv_pool t0 h0 d0 s =
     (t0 + 20 \<le> 2147483647 \<and> h0 + 20 \<le> 2147483647 \<and> d0 + 60 \<le> 2147483647
      \<and> 0 \<le> g_tanks (g_pool s) \<and> g_tanks (g_pool s) \<le> t0 + 2 * adds s
      \<and> 0 \<le> g_healers (g_pool s) \<and> g_healers (g_pool s) \<le> h0 + 2 * adds s
      \<and> 0 \<le> g_dps (g_pool s) \<and> g_dps (g_pool s) \<le> d0 + 6 * adds s)"

text \<open>The callers of \<^verbatim>\<open>try_form_party\<close> on a pool of one tank, one healer and three dps.\<close>

definition conc_inv :: "conc \<Rightarrow> bool" where
  "conc_inv c =
     (cnt in_cs (callers c) = (if g_data_mutex c then 1 else 0)
      \<and> cnt won (callers c) \<le> 1
      \<and> (0 < cnt lost (callers c) \<longrightarrow> cnt won (callers c) = 1)
      \<and> g_tanks (c_pool c) = 1 - cnt took_tanks (callers c)
      \<and> g_healers (c_pool c) = 1 - cnt took_healers (callers c)
      \<and> g_dps (c_pool c) = 3 - 3 * cnt took_dps (callers c))"

section \<open>Some runs\<close>

text \<open>
  Arrival cycles that add nothing; a run in which the last cycle adds a party's worth of
  players between the dispatcher's failed call and its check; a complete run with one
  party; and a state in which a thread holds a permit while no instance is empty.
\<close>

definition quiet_cycles :: "nat \<Rightarrow> label list" where
  "quiet_cycles m = concat (replicate m [Arr 0 0 0, Arr 0 0 0])"

definition race_trace :: "label list" where
  "race_trace = [Disp] @ quiet_cycles 9 @ [Arr 1 1 3, Arr 0 0 0, Arr 0 0 0, Disp]"

definition full_trace :: "label list" where
  "full_trace = [Disp, Disp, Work 0 1, Work 0 1, Work 0 1, Work 0 1, Work 0 1, Work 0 1, Disp, Disp]
     @ quiet_cycles 10 @ [Arr 0 0 0, Disp, Disp, Disp, Disp, Disp, Disp]"

definition jammed :: sys where
  "jammed = (init_sys 1 0 0 0 1 2)
     \<lparr>g_instance_slots := 0,
      g_instance_status := [''active''],
      party_threads := [(new_party 1 1 2)\<lparr>duration := 1, w_pc := WAcquired\<rparr>]\<rparr>"

section \<open>Facts about the model\<close>

lemma wrap32_id: "int32 x \<Longrightarrow> wrap32 x = x"
  by (simp add: int32_def wrap32_def)

lemma int32_wrap32: "int32 (wrap32 x)"
proof -
  have "0 \<le> (x + 2147483648) mod 4294967296" by simp
  moreover have "(x + 2147483648) mod 4294967296 < 4294967296" by simp
  ultimately show ?thesis unfolding int32_def wrap32_def by linarith
qed

lemma cnt_Nil [simp]: "cnt P [] = 0"
  by (simp add: cnt_def)

lemma cnt_Cons [simp]: "cnt P (x # xs) = (if P x then 1 else 0) + cnt P xs"
  by (simp add: cnt_def)

lemma cnt_append [simp]: "cnt P (xs @ ys) = cnt P xs + cnt P ys"
  by (simp add: cnt_def)

lemma cnt_nonneg: "0 \<le> cnt P xs"
  by (simp add: cnt_def)

lemma cnt_le_length: "cnt P xs \<le> int (length xs)"
  by (simp add: cnt_def)

lemma cnt_replicate: "cnt P (replicate n x) = (if P x then int n else 0)"
  by (induction n) auto

lemma cnt_update:
  "k < length xs \<Longrightarrow>
   cnt P (xs[k := y]) = cnt P xs - (if P (xs ! k) then 1 else 0) + (if P y then 1 else 0)"
proof (induction xs arbitrary: k)
  case Nil
  then show ?case by simp
next
  case (Cons x xs)
  then show ?case by (cases k) auto
qed

lemma cnt_mono: "(\<And>x. x \<in> set xs \<Longrightarrow> P x \<Longrightarrow> Q x) \<Longrightarrow> cnt P xs \<le> cnt Q xs"
  by (induction xs) auto

lemma cnt_strict:
  assumes "\<And>x. x \<in> set xs \<Longrightarrow> P x \<Longrightarrow> Q x" and "k < length xs" and "Q (xs ! k)" and "\<not> P (xs ! k)"
  shows "cnt P xs < cnt Q xs"
  using assms
proof (induction xs arbitrary: k)
  case Nil
  then show ?case by simp
next
  case (Cons x xs)
  show ?case
  proof (cases k)
    case 0
    have "cnt P xs \<le> cnt Q xs" using Cons.prems(1) by (intro cnt_mono) auto
    with 0 Cons.prems show ?thesis by auto
  next
    case (Suc m)
    have "cnt P xs < cnt Q xs"
      using Cons.IH [of m] Cons.prems Suc by auto
    moreover have "P x \<Longrightarrow> Q x" using Cons.prems(1) by auto
    ultimately show ?thesis by auto
  qed
qed

lemma cnt_less_ex: "cnt P xs < int (length xs) \<Longrightarrow> \<exists>x \<in> set xs. \<not> P x"
proof (induction xs)
  case Nil
  then show ?case by simp
next
  case (Cons y ys)
  then show ?case by (cases "P y") auto
qed

lemma find_empty_None: "(find_empty xs i = None) = (''empty'' \<notin> set xs)"
  by (induction xs arbitrary: i) auto

lemma find_empty_Some:
  "find_empty xs i = Some j \<Longrightarrow> i \<le> j \<and> j - i < length xs \<and> xs ! (j - i) = ''empty''"
proof (induction xs arbitrary: i)
  case Nil
  then show ?case by simp
next
  case (Cons x xs)
  show ?case
  proof (cases "x = ''empty''")
    case True
    with Cons.prems show ?thesis by simp
  next
    case False
    with Cons.prems have "find_empty xs (Suc i) = Some j" by simp
    from Cons.IH [OF this] have "Suc i \<le> j" "j - Suc i < length xs" "xs ! (j - Suc i) = ''empty''"
      by auto
    then show ?thesis by (auto simp: Suc_diff_le nth_Cons')
  qed
qed

lemma find_empty_0: "find_empty xs 0 = Some j \<Longrightarrow> j < length xs \<and> xs ! j = ''empty''"
  using find_empty_Some [of xs 0 j] by simp

lemma step_Work_cases:
  assumes "step (Work k d) s = Some s'"
  obtains
    (acquire) "k < length (party_threads s)" "w_pc (party_threads s ! k) = WStart"
      "0 < g_instance_slots s"
      "dur_ok (min_time (party_threads s ! k)) (max_time (party_threads s ! k)) d"
      "s' = s\<lparr>g_instance_slots := sub32 (g_instance_slots s) 1,
               party_threads := (party_threads s)[k := (party_threads s ! k)\<lparr>duration := d, w_pc := WAcquired\<rparr>]\<rparr>"
  | (claim) "k < length (party_threads s)" "w_pc (party_threads s ! k) = WAcquired"
      "s' = s\<lparr>g_instance_status := snd (claim_instance (g_max_instances s) (g_instance_status s)),
               party_threads := (party_threads s)[k := (party_threads s ! k)
                  \<lparr>instance_id := fst (claim_instance (g_max_instances s) (g_instance_status s)),
                   w_pc := WClaimed\<rparr>]\<rparr>"
  | (enter) "k < length (party_threads s)" "w_pc (party_threads s ! k) = WClaimed"
      "s' = s\<lparr>cout := cout s @ [Entered (party_id (party_threads s ! k))
                   (instance_id (party_threads s ! k)) (duration (party_threads s ! k)) (print_status s)],
               party_threads := (party_threads s)[k := (party_threads s ! k)\<lparr>w_pc := WRunning\<rparr>]\<rparr>"
  | (update) "k < length (party_threads s)" "w_pc (party_threads s ! k) = WRunning"
      "0 \<le> instance_id (party_threads s ! k)"
      "s' = s\<lparr>g_instance_status :=
                 (g_instance_status s)[nat (instance_id (party_threads s ! k)) := ''empty''],
               g_parties_served :=
                 (g_parties_served s)[nat (instance_id (party_threads s ! k)) :=
                    add32 (g_parties_served s ! nat (instance_id (party_threads s ! k))) 1],
               g_time_served :=
                 (g_time_served s)[nat (instance_id (party_threads s ! k)) :=
                    g_time_served s ! nat (instance_id (party_threads s ! k))
                      + duration (party_threads s ! k)],
               party_threads := (party_threads s)[k := (party_threads s ! k)\<lparr>w_pc := WUpdated\<rparr>]\<rparr>"
  | (error) "k < length (party_threads s)" "w_pc (party_threads s ! k) = WRunning"
      "instance_id (party_threads s ! k) < 0"
      "s' = s\<lparr>cout := cout s @ [ErrNoInstance (party_id (party_threads s ! k))],
               party_threads := (party_threads s)[k := (party_threads s ! k)\<lparr>w_pc := WUpdated\<rparr>]\<rparr>"
  | (finish) "k < length (party_threads s)" "w_pc (party_threads s ! k) = WUpdated"
      "s' = s\<lparr>cout := cout s @ [Finished (party_id (party_threads s ! k))
                   (instance_id (party_threads s ! k)) (print_status s)],
               party_threads := (party_threads s)[k := (party_threads s ! k)\<lparr>w_pc := WPrinted\<rparr>]\<rparr>"
  | (release) "k < length (party_threads s)" "w_pc (party_threads s ! k) = WPrinted"
      "s' = s\<lparr>g_instance_slots := add32 (g_instance_slots s) 1,
               party_threads := (party_threads s)[k := (party_threads s ! k)\<lparr>w_pc := WDone\<rparr>]\<rparr>"
proof -
  from assms have k: "k < length (party_threads s)"
    by (simp split: if_splits)
  show ?thesis
  proof (cases "w_pc (party_threads s ! k)")
    case WStart
    with assms k show ?thesis
      by (intro acquire)
         (auto simp: run_dungeon_step_def acquire_def split: if_splits)
  next
    case WAcquired
    with assms k show ?thesis
      by (intro claim) (auto simp: run_dungeon_step_def split: prod.splits)
  next
    case WClaimed
    with assms k show ?thesis
      by (intro enter) (auto simp: run_dungeon_step_def)
  next
    case WRunning
    show ?thesis
    proof (cases "0 \<le> instance_id (party_threads s ! k)")
      case True
      with WRunning assms k show ?thesis
        by (intro update) (auto simp: run_dungeon_step_def)
    next
      case False
      with WRunning assms k show ?thesis
        by (intro error) (auto simp: run_dungeon_step_def)
    qed
  next
    case WUpdated
    with assms k show ?thesis
      by (intro finish) (auto simp: run_dungeon_step_def)
  next
    case WPrinted
    with assms k show ?thesis
      by (intro release) (auto simp: run_dungeon_step_def release_def)
  next
    case WDone
    with assms k show ?thesis
      by (simp add: run_dungeon_step_def)
  qed
qed

lemma step_Disp_cases:
  assumes "step Disp s = Some s'"
  obtains
    (compose) "d_pc s = DTry"
      "s' = note_try (fst (try_form_party (g_pool s)))
              (s\<lparr>g_pool := snd (try_form_party (g_pool s)),
                 d_pc := (if fst (try_form_party (g_pool s)) then DSpawn else DCheck)\<rparr>)"
  | (spawn) "d_pc s = DSpawn"
      "s' = s\<lparr>next_party_id := add32 (next_party_id s) 1,
               party_threads := party_threads s @
                 [new_party (add32 (next_party_id s) 1) (main_t1 s) (main_t2 s)],
               formed_any := True,
               d_pc := DTry\<rparr>"
  | (check) "d_pc s = DCheck"
      "s' = (note_check s)\<lparr>d_pc := (if g_arrival_done s \<and> \<not> formed_any s
                                      then DJoinArrival else DSleep)\<rparr>"
  | (sleep) "d_pc s = DSleep" "s' = s\<lparr>formed_any := False, d_pc := DTry\<rparr>"
  | (join_arrival) "d_pc s = DJoinArrival" "a_pc s = ADone" "s' = s\<lparr>d_pc := DJoinParties 0\<rparr>"
  | (join_party) j where "d_pc s = DJoinParties j" "j < length (party_threads s)"
      "w_pc (party_threads s ! j) = WDone" "s' = s\<lparr>d_pc := DJoinParties (Suc j)\<rparr>"
  | (summary) j where "d_pc s = DJoinParties j" "\<not> j < length (party_threads s)"
      "s' = s\<lparr>total_parties_all := sum32 (take (nat (g_max_instances s)) (g_parties_served s)),
               total_time_all := sum_list (take (nat (g_max_instances s)) (g_time_served s)),
               cout := cout s @
                 [Summary (take (nat (g_max_instances s)) (g_parties_served s))
                          (take (nat (g_max_instances s)) (g_time_served s))
                          (sum32 (take (nat (g_max_instances s)) (g_parties_served s)))
                          (sum_list (take (nat (g_max_instances s)) (g_time_served s)))],
               d_pc := DExit\<rparr>"
proof (cases "d_pc s")
  case DTry
  with assms show ?thesis
    by (intro compose) (auto simp: main_step_def split: prod.splits)
next
  case DSpawn
  with assms show ?thesis by (intro spawn) (auto simp: main_step_def)
next
  case DCheck
  with assms show ?thesis by (intro check) (auto simp: main_step_def)
next
  case DSleep
  with assms show ?thesis by (intro sleep) (auto simp: main_step_def)
next
  case DJoinArrival
  with assms show ?thesis by (intro join_arrival) (auto simp: main_step_def split: if_splits)
next
  case (DJoinParties j)
  show ?thesis
  proof (cases "j < length (party_threads s)")
    case True
    with DJoinParties assms show ?thesis
      by (intro join_party [of j]) (auto simp: main_step_def split: if_splits)
  next
    case False
    with DJoinParties assms show ?thesis
      by (intro summary [of j]) (auto simp: main_step_def split: if_splits)
  qed
next
  case DExit
  with assms show ?thesis by (simp add: main_step_def)
qed

lemma step_Arr_cases:
  assumes "step (Arr at ah ad) s = Some s'"
  obtains
    (add) "a_pc s = ALoop" "a_i s < cycles s"
      "0 \<le> at" "at \<le> 2" "0 \<le> ah" "ah \<le> 2" "0 \<le> ad" "ad \<le> 6"
      "s' = s\<lparr>g_pool := add_players at ah ad (g_pool s),
               a_at := at, a_ah := ah, a_ad := ad, a_pc := APrint\<rparr>"
  | (signal) "a_pc s = ALoop" "\<not> a_i s < cycles s"
      "s' = s\<lparr>g_arrival_done := True, a_pc := ADone\<rparr>"
  | (message) "a_pc s = APrint"
      "s' = s\<lparr>cout := cout s @ [ArrivalAdded (a_at s) (a_ah s) (a_ad s)],
               a_i := add32 (a_i s) 1, a_pc := ALoop\<rparr>"
proof (cases "a_pc s")
  case ALoop
  show ?thesis
  proof (cases "a_i s < cycles s")
    case True
    with ALoop assms show ?thesis
      by (intro add) (auto simp: arrival_thread_func_step_def split: if_splits)
  next
    case False
    with ALoop assms show ?thesis
      by (intro signal) (auto simp: arrival_thread_func_step_def)
  qed
next
  case APrint
  with assms show ?thesis by (intro message) (auto simp: arrival_thread_func_step_def)
next
  case ADone
  with assms show ?thesis by (simp add: arrival_thread_func_step_def)
qed

lemma sub32_id: "int32 (a - b) \<Longrightarrow> sub32 a b = a - b"
  by (simp add: sub32_def wrap32_id)

lemma add32_id: "int32 (a + b) \<Longrightarrow> add32 a b = a + b"
  by (simp add: add32_def wrap32_id)

lemma cnt_pos: "k < length xs \<Longrightarrow> P (xs ! k) \<Longrightarrow> 1 \<le> cnt P xs"
proof (induction xs arbitrary: k)
  case Nil
  then show ?case by simp
next
  case (Cons x xs)
  show ?case
  proof (cases k)
    case 0
    with Cons.prems cnt_nonneg [of P xs] show ?thesis by simp
  next
    case (Suc m)
    with Cons.prems Cons.IH [of m] show ?thesis by simp
  qed
qed

lemma inv_reg_claim_some:
  assumes inv: "inv_reg s" and k: "k < length (party_threads s)"
    and pc: "w_pc (party_threads s ! k) = WAcquired"
  shows "\<exists>i. find_empty (take (nat (g_max_instances s)) (g_instance_status s)) 0 = Some i
             \<and> i < length (g_instance_status s) \<and> g_instance_status s ! i = ''empty''"
proof -
  let ?ws = "party_threads s" and ?st = "g_instance_status s"
  have len: "length ?st = nat (g_max_instances s)" using inv by (simp add: inv_reg_def)
  have "cnt occupies ?ws < cnt holds_permit ?ws"
    using k pc by (intro cnt_strict [of _ _ _ k]) (auto simp: occupies_def holds_permit_def)
  moreover have "g_instance_slots s + cnt holds_permit ?ws = g_max_instances s"
    "0 \<le> g_instance_slots s" "active_slots s = cnt occupies ?ws" "0 \<le> g_max_instances s"
    using inv by (simp_all add: inv_reg_def)
  ultimately have "cnt (\<lambda>x. x = ''active'') ?st < int (length ?st)"
    using len by (simp add: active_slots_def)
  then obtain x where x: "x \<in> set ?st" "x \<noteq> ''active''"
    using cnt_less_ex by blast
  moreover have "set ?st \<subseteq> {''empty'', ''active''}" using inv by (simp add: inv_reg_def)
  ultimately have "''empty'' \<in> set ?st" by auto
  then have "find_empty ?st 0 \<noteq> None" by (simp add: find_empty_None)
  then obtain i where i: "find_empty ?st 0 = Some i" by auto
  from find_empty_0 [OF i] i len show ?thesis by simp
qed

lemma inv_reg_Work:
  assumes inv: "inv_reg s" and st: "step (Work k d) s = Some s'"
  shows "inv_reg s'"
  using st
proof (cases rule: step_Work_cases)
  case acquire
  have "int32 (g_instance_slots s - 1)"
    using inv acquire(3) cnt_nonneg [of holds_permit "party_threads s"]
    by (auto simp: inv_reg_def int32_def)
  then have "sub32 (g_instance_slots s) 1 = g_instance_slots s - 1" by (rule sub32_id)
  with inv acquire show ?thesis
    by (auto simp: inv_reg_def cnt_update holds_permit_def occupies_def active_slots_def
        nth_list_update)
next
  case claim
  from inv_reg_claim_some [OF inv claim(1) claim(2)] obtain i where
    i: "find_empty (take (nat (g_max_instances s)) (g_instance_status s)) 0 = Some i"
      "i < length (g_instance_status s)" "g_instance_status s ! i = ''empty''"
    by blast
  then have ci: "claim_instance (g_max_instances s) (g_instance_status s)
                 = (int i, (g_instance_status s)[i := ''active''])"
    by (simp add: claim_instance_def)
  have other: "\<And>j. j < length (party_threads s) \<Longrightarrow> occupies (party_threads s ! j) \<Longrightarrow>
      instance_id (party_threads s ! j) \<noteq> int i"
    using inv i(3) by (auto simp: inv_reg_def)
  have nocc: "\<not> occupies (party_threads s ! k)" using claim(2) by (simp add: occupies_def)
  show ?thesis
    unfolding inv_reg_def
  proof (intro conjI)
    show "\<forall>ka<length (party_threads s'). occupies (party_threads s' ! ka) \<longrightarrow>
         0 \<le> instance_id (party_threads s' ! ka) \<and>
         instance_id (party_threads s' ! ka) < g_max_instances s' \<and>
         g_instance_status s' ! nat (instance_id (party_threads s' ! ka)) = ''active''"
      using inv claim ci i other nocc
      by (auto simp: inv_reg_def nth_list_update occupies_def)
    show "\<forall>ka<length (party_threads s'). \<forall>j<length (party_threads s').
       ka \<noteq> j \<and> occupies (party_threads s' ! ka) \<and> occupies (party_threads s' ! j) \<longrightarrow>
       instance_id (party_threads s' ! ka) \<noteq> instance_id (party_threads s' ! j)"
    proof (intro allI impI)
      fix ka j
      assume ka: "ka < length (party_threads s')" and j: "j < length (party_threads s')"
        and h: "ka \<noteq> j \<and> occupies (party_threads s' ! ka) \<and> occupies (party_threads s' ! j)"
      have old: "\<And>a b. a < length (party_threads s) \<Longrightarrow> b < length (party_threads s) \<Longrightarrow> a \<noteq> b
          \<Longrightarrow> occupies (party_threads s ! a) \<Longrightarrow> occupies (party_threads s ! b)
          \<Longrightarrow> instance_id (party_threads s ! a) \<noteq> instance_id (party_threads s ! b)"
        using inv by (simp add: inv_reg_def)
      consider "ka = k" "j \<noteq> k" | "j = k" "ka \<noteq> k" | "ka \<noteq> k" "j \<noteq> k"
        using h by blast
      then show "instance_id (party_threads s' ! ka) \<noteq> instance_id (party_threads s' ! j)"
      proof cases
        case 1
        with ka j h claim ci have "occupies (party_threads s ! j)" "j < length (party_threads s)"
          by (simp_all)
        from other [OF this(2) this(1)] 1 claim ci ka j show ?thesis by simp
      next
        case 2
        with ka j h claim ci have "occupies (party_threads s ! ka)" "ka < length (party_threads s)"
          by (simp_all)
        from other [OF this(2) this(1)] 2 claim ci ka j show ?thesis by simp
      next
        case 3
        with ka j h claim ci old [of ka j] show ?thesis by simp
      qed
    qed
    show "set (g_instance_status s') \<subseteq> {''empty'', ''active''}"
      using inv claim ci i set_update_subset_insert [of "g_instance_status s" i "''active''"]
      by (auto simp: inv_reg_def)
  qed (use inv claim ci i in \<open>auto simp: inv_reg_def cnt_update holds_permit_def occupies_def
        active_slots_def\<close>)
next
  case enter
  with inv show ?thesis
    by (auto simp: inv_reg_def cnt_update holds_permit_def occupies_def active_slots_def
        nth_list_update)
next
  case update
  have occ: "occupies (party_threads s ! k)" using update(2) by (simp add: occupies_def)
  with inv update(1) have a: "nat (instance_id (party_threads s ! k)) < length (g_instance_status s)"
      "g_instance_status s ! nat (instance_id (party_threads s ! k)) = ''active''"
    by (auto simp: inv_reg_def)
  have other: "\<And>j. j < length (party_threads s) \<Longrightarrow> j \<noteq> k \<Longrightarrow> occupies (party_threads s ! j) \<Longrightarrow>
      nat (instance_id (party_threads s ! j)) \<noteq> nat (instance_id (party_threads s ! k))"
  proof -
    fix j assume j: "j < length (party_threads s)" "j \<noteq> k" "occupies (party_threads s ! j)"
    with inv occ update(1) have "instance_id (party_threads s ! j) \<noteq> instance_id (party_threads s ! k)"
      "0 \<le> instance_id (party_threads s ! j)"
      by (auto simp: inv_reg_def)
    with update(3) show "nat (instance_id (party_threads s ! j)) \<noteq> nat (instance_id (party_threads s ! k))"
      by simp
  qed
  show ?thesis
    unfolding inv_reg_def
  proof (intro conjI)
    show "\<forall>ka<length (party_threads s'). occupies (party_threads s' ! ka) \<longrightarrow>
         0 \<le> instance_id (party_threads s' ! ka) \<and>
         instance_id (party_threads s' ! ka) < g_max_instances s' \<and>
         g_instance_status s' ! nat (instance_id (party_threads s' ! ka)) = ''active''"
    proof (intro allI impI)
      fix ka
      assume ka: "ka < length (party_threads s')" and h: "occupies (party_threads s' ! ka)"
      have nk: "ka \<noteq> k" using h ka update by (auto simp: occupies_def)
      with ka h update have o: "ka < length (party_threads s)" "occupies (party_threads s ! ka)"
        by simp_all
      with inv have v: "0 \<le> instance_id (party_threads s ! ka)"
          "instance_id (party_threads s ! ka) < g_max_instances s"
          "g_instance_status s ! nat (instance_id (party_threads s ! ka)) = ''active''"
        by (auto simp: inv_reg_def)
      from other [OF o(1) nk o(2)] v nk o update
      show "0 \<le> instance_id (party_threads s' ! ka) \<and>
         instance_id (party_threads s' ! ka) < g_max_instances s' \<and>
         g_instance_status s' ! nat (instance_id (party_threads s' ! ka)) = ''active''"
        by simp
    qed
    show "\<forall>ka<length (party_threads s'). \<forall>j<length (party_threads s').
       ka \<noteq> j \<and> occupies (party_threads s' ! ka) \<and> occupies (party_threads s' ! j) \<longrightarrow>
       instance_id (party_threads s' ! ka) \<noteq> instance_id (party_threads s' ! j)"
    proof (intro allI impI)
      fix ka j
      assume ka: "ka < length (party_threads s')" and j: "j < length (party_threads s')"
        and h: "ka \<noteq> j \<and> occupies (party_threads s' ! ka) \<and> occupies (party_threads s' ! j)"
      have old: "\<And>a b. a < length (party_threads s) \<Longrightarrow> b < length (party_threads s) \<Longrightarrow> a \<noteq> b
          \<Longrightarrow> occupies (party_threads s ! a) \<Longrightarrow> occupies (party_threads s ! b)
          \<Longrightarrow> instance_id (party_threads s ! a) \<noteq> instance_id (party_threads s ! b)"
        using inv by (simp add: inv_reg_def)
      have nk: "ka \<noteq> k" "j \<noteq> k" using h ka j update by (auto simp: occupies_def)
      with ka j h update old [of ka j]
      show "instance_id (party_threads s' ! ka) \<noteq> instance_id (party_threads s' ! j)"
        by simp
    qed
    show "set (g_instance_status s') \<subseteq> {''empty'', ''active''}"
      using inv update a
        set_update_subset_insert [of "g_instance_status s" "nat (instance_id (party_threads s ! k))" "''empty''"]
      by (auto simp: inv_reg_def)
  qed (use inv update a in \<open>auto simp: inv_reg_def cnt_update holds_permit_def occupies_def
        active_slots_def\<close>)
next
  case error
  have "occupies (party_threads s ! k)" using error(2) by (simp add: occupies_def)
  with inv error(1) have "0 \<le> instance_id (party_threads s ! k)" by (auto simp: inv_reg_def)
  with error(3) show ?thesis by simp
next
  case finish
  with inv show ?thesis
    by (auto simp: inv_reg_def cnt_update holds_permit_def occupies_def active_slots_def
        nth_list_update)
next
  case release
  have "holds_permit (party_threads s ! k)" using release(2) by (simp add: holds_permit_def)
  then have "1 \<le> cnt holds_permit (party_threads s)"
    using cnt_pos [of k "party_threads s" holds_permit] release(1) by simp
  then have "int32 (g_instance_slots s + 1)"
    using inv by (auto simp: inv_reg_def int32_def)
  then have "add32 (g_instance_slots s) 1 = g_instance_slots s + 1" by (rule add32_id)
  with inv release show ?thesis
    by (auto simp: inv_reg_def cnt_update holds_permit_def occupies_def active_slots_def
        nth_list_update)
qed

lemma inv_reg_frame:
  assumes "inv_reg s"
    and "g_max_instances s' = g_max_instances s" and "g_instance_slots s' = g_instance_slots s"
    and "g_instance_status s' = g_instance_status s" and "g_parties_served s' = g_parties_served s"
    and "g_time_served s' = g_time_served s" and "party_threads s' = party_threads s"
  shows "inv_reg s'"
  using assms by (simp add: inv_reg_def active_slots_def)

lemma inv_reg_Disp:
  assumes inv: "inv_reg s" and st: "step Disp s = Some s'"
  shows "inv_reg s'"
  using st
proof (cases rule: step_Disp_cases)
  case compose
  then show ?thesis by (intro inv_reg_frame [OF inv]) (simp_all add: note_try_def)
next
  case spawn
  have w: "\<not> occupies (new_party (add32 (next_party_id s) 1) (main_t1 s) (main_t2 s))"
    "\<not> holds_permit (new_party (add32 (next_party_id s) 1) (main_t1 s) (main_t2 s))"
    by (simp_all add: occupies_def holds_permit_def new_party_def)
  with inv spawn show ?thesis
    by (auto simp: inv_reg_def active_slots_def nth_append)
next
  case check
  then show ?thesis by (intro inv_reg_frame [OF inv]) (simp_all add: note_check_def)
next
  case sleep
  then show ?thesis by (intro inv_reg_frame [OF inv]) simp_all
next
  case join_arrival
  then show ?thesis by (intro inv_reg_frame [OF inv]) simp_all
next
  case (join_party j)
  then show ?thesis by (intro inv_reg_frame [OF inv]) simp_all
next
  case (summary j)
  then show ?thesis by (intro inv_reg_frame [OF inv]) simp_all
qed

lemma inv_reg_Arr:
  assumes inv: "inv_reg s" and st: "step (Arr at ah ad) s = Some s'"
  shows "inv_reg s'"
  using st
  by (cases rule: step_Arr_cases) (intro inv_reg_frame [OF inv]; simp)+

lemma inv_reg_step: "inv_reg s \<Longrightarrow> step l s = Some s' \<Longrightarrow> inv_reg s'"
  by (cases l) (auto intro: inv_reg_Disp inv_reg_Arr inv_reg_Work)

lemma main_start_Some:
  assumes "main_start n tanks healers dps lo hi = Some s0"
  obtains a b where "1 \<le> n" "int32 n" "0 \<le> tanks" "int32 tanks" "0 \<le> healers" "int32 healers"
    "0 \<le> dps" "int32 dps"
    "s0 = (init_sys n tanks healers dps a b)\<lparr>cout := fst (input_validation n tanks healers dps lo hi)\<rparr>"
  using assms
  by (auto simp: main_start_def input_validation_def Let_def split: if_splits)

lemma inv_reg_init:
  assumes "main_start n tanks healers dps lo hi = Some s0"
  shows "inv_reg s0"
  using assms
  by (cases rule: main_start_Some)
     (auto simp: inv_reg_def init_sys_def active_slots_def cnt_replicate)

lemma inv_arr_frame:
  assumes "inv_arr s"
    and "cycles s' = cycles s" and "a_i s' = a_i s" and "a_pc s' = a_pc s"
    and "g_arrival_done s' = g_arrival_done s"
  shows "inv_arr s'"
  using assms by (auto simp add: inv_arr_def)

lemma inv_arr_step:
  assumes inv: "inv_arr s" and st: "step l s = Some s'"
  shows "inv_arr s'"
proof (cases l)
  case Disp
  with st have "step Disp s = Some s'" by simp
  then show ?thesis
    by (cases rule: step_Disp_cases)
       (intro inv_arr_frame [OF inv]; simp add: note_try_def note_check_def)+
next
  case (Arr at ah ad)
  with st have "step (Arr at ah ad) s = Some s'" by simp
  then show ?thesis
  proof (cases rule: step_Arr_cases)
    case add
    with inv show ?thesis by (simp add: inv_arr_def)
  next
    case signal
    with inv show ?thesis by (simp add: inv_arr_def)
  next
    case message
    have "int32 (a_i s + 1)" using inv message(1) by (simp add: inv_arr_def int32_def)
    then have "add32 (a_i s) 1 = a_i s + 1" by (rule add32_id)
    with inv message show ?thesis by (simp add: inv_arr_def)
  qed
next
  case (Work k d)
  with st have "step (Work k d) s = Some s'" by simp
  then show ?thesis
    by (cases rule: step_Work_cases) (intro inv_arr_frame [OF inv]; simp)+
qed

lemma inv_disp_frame:
  assumes "inv_disp s"
    and "d_pc s' = d_pc s" and "formed_any s' = formed_any s" and "h_last_try s' = h_last_try s"
    and "h_seen_done s' = h_seen_done s" and "h_seen_formed s' = h_seen_formed s"
    and "h_tries_after s' = h_tries_after s" and "g_arrival_done s \<longrightarrow> g_arrival_done s'"
  shows "inv_disp s'"
  using assms by (auto simp add: inv_disp_def)

lemma inv_disp_step:
  assumes inv: "inv_disp s" and st: "step l s = Some s'"
  shows "inv_disp s'"
proof (cases l)
  case Disp
  with st have "step Disp s = Some s'" by simp
  then show ?thesis
  proof (cases rule: step_Disp_cases)
    case compose
    with inv show ?thesis by (auto simp: inv_disp_def note_try_def)
  next
    case spawn
    with inv show ?thesis by (auto simp: inv_disp_def)
  next
    case check
    with inv show ?thesis by (auto simp: inv_disp_def note_check_def)
  next
    case sleep
    with inv show ?thesis by (auto simp: inv_disp_def)
  next
    case join_arrival
    with inv show ?thesis by (auto simp: inv_disp_def)
  next
    case (join_party j)
    with inv show ?thesis by (auto simp: inv_disp_def)
  next
    case (summary j)
    with inv show ?thesis by (auto simp: inv_disp_def)
  qed
next
  case (Arr at ah ad)
  with st have "step (Arr at ah ad) s = Some s'" by simp
  then show ?thesis
    by (cases rule: step_Arr_cases) (intro inv_disp_frame [OF inv]; simp)+
next
  case (Work k d)
  with st have "step (Work k d) s = Some s'" by simp
  then show ?thesis
    by (cases rule: step_Work_cases) (intro inv_disp_frame [OF inv]; simp)+
qed

lemma inv_arr_init:
  assumes "main_start n tanks healers dps lo hi = Some s0"
  shows "inv_arr s0"
  using assms by (cases rule: main_start_Some) (simp add: inv_arr_def init_sys_def)

lemma inv_disp_init:
  assumes "main_start n tanks healers dps lo hi = Some s0"
  shows "inv_disp s0"
  using assms by (cases rule: main_start_Some) (simp add: inv_disp_def init_sys_def)

lemma wrap32_le: "- 2147483648 \<le> x \<Longrightarrow> wrap32 x \<le> x"
proof -
  assume "- 2147483648 \<le> x"
  then have "(x + 2147483648) mod 4294967296 \<le> x + 2147483648"
    by (intro zmod_le_nonneg_dividend) simp
  then show ?thesis by (simp add: wrap32_def)
qed

lemma pool32_try: "pool32 p \<Longrightarrow> pool32 (snd (try_form_party p))"
  by (simp add: try_form_party_def pool32_def sub32_def int32_wrap32)

lemma pool32_add: "pool32 (add_players at ah ad p)"
  by (simp add: add_players_def pool32_def add32_def int32_wrap32)

lemma try_dps_True:
  "pool32 p \<Longrightarrow> fst (try_form_party p) \<Longrightarrow> g_dps (snd (try_form_party p)) = g_dps p - 3"
  by (auto simp: try_form_party_def pool32_def int32_def sub32_def wrap32_id split: if_splits)

lemma try_False: "\<not> fst (try_form_party p) \<Longrightarrow> snd (try_form_party p) = p"
  by (auto simp: try_form_party_def)

lemma sum_list_upd:
  fixes xs :: "int list"
  shows "i < length xs \<Longrightarrow> sum_list (xs[i := y]) = sum_list xs - xs ! i + y"
proof (induction xs arbitrary: i)
  case Nil
  then show ?case by simp
next
  case (Cons x xs)
  then show ?case by (cases i) auto
qed

lemma nth_le_sum_list:
  fixes xs :: "int list"
  shows "\<forall>x \<in> set xs. 0 \<le> x \<Longrightarrow> i < length xs \<Longrightarrow> xs ! i \<le> sum_list xs"
proof (induction xs arbitrary: i)
  case Nil
  then show ?case by simp
next
  case (Cons x xs)
  show ?case
  proof (cases i)
    case 0
    have "0 \<le> sum_list xs" using Cons.prems(1) by (intro sum_list_nonneg) simp
    with 0 show ?thesis by simp
  next
    case (Suc m)
    with Cons.prems Cons.IH [of m] show ?thesis by simp
  qed
qed

lemma fold_add32:
  "\<forall>x \<in> set xs. 0 \<le> x \<Longrightarrow> 0 \<le> a \<Longrightarrow> a + sum_list xs \<le> 2147483647 \<Longrightarrow>
   fold (\<lambda>x acc. add32 acc x) xs a = a + sum_list xs"
proof (induction xs arbitrary: a)
  case Nil
  then show ?case by simp
next
  case (Cons x xs)
  have nn: "0 \<le> sum_list xs" using Cons.prems(1) by (intro sum_list_nonneg) simp
  have x: "0 \<le> x" using Cons.prems(1) by simp
  have "int32 (a + x)" using Cons.prems(2,3) nn x by (simp add: int32_def)
  then have "add32 a x = a + x" by (rule add32_id)
  moreover have "fold (\<lambda>x acc. add32 acc x) xs (a + x) = (a + x) + sum_list xs"
    using Cons.prems x by (intro Cons.IH) auto
  ultimately show ?case by simp
qed

lemma sum32_sum_list:
  "\<forall>x \<in> set xs. 0 \<le> x \<Longrightarrow> sum_list xs \<le> 2147483647 \<Longrightarrow> sum32 xs = sum_list xs"
  using fold_add32 [of xs 0] by (simp add: sum32_def)

lemma cnt_all_eq: "\<forall>x \<in> set xs. P x \<Longrightarrow> cnt P xs = int (length xs)"
  by (induction xs) auto

lemma composed_bound:
  assumes "inv_cnt dps0 s" and "inv_arr s"
  shows "int (h_composed s) \<le> 1431655785"
proof -
  have "adds s \<le> 10" using assms(2) by (auto simp: inv_arr_def adds_def)
  moreover have "- 2147483648 \<le> g_dps (g_pool s)" "dps0 \<le> 2147483647"
    using assms(1) by (simp_all add: inv_cnt_def pool32_def int32_def)
  moreover have "3 * int (h_composed s) + g_dps (g_pool s) \<le> dps0 + 6 * adds s"
    using assms(1) by (simp add: inv_cnt_def)
  ultimately show ?thesis by linarith
qed

lemma threads_bound:
  assumes "inv_cnt dps0 s" and "inv_arr s"
  shows "int (length (party_threads s)) \<le> 1431655785"
    and "d_pc s = DSpawn \<Longrightarrow> int (length (party_threads s)) + 1 \<le> 1431655785"
proof -
  have "int (length (party_threads s)) + (if d_pc s = DSpawn then 1 else 0) = int (h_composed s)"
    using assms(1) by (simp add: inv_cnt_def)
  with composed_bound [OF assms]
  show "int (length (party_threads s)) \<le> 1431655785"
    and "d_pc s = DSpawn \<Longrightarrow> int (length (party_threads s)) + 1 \<le> 1431655785"
    by (auto split: if_splits)
qed

lemma inv_cnt_Disp:
  assumes inv: "inv_cnt dps0 s" and arr: "inv_arr s" and reg: "inv_reg s"
    and st: "step Disp s = Some s'"
  shows "inv_cnt dps0 s'"
  using st
proof (cases rule: step_Disp_cases)
  case compose
  have p32: "pool32 (g_pool s)" using inv by (simp add: inv_cnt_def)
  show ?thesis
  proof (cases "fst (try_form_party (g_pool s))")
    case True
    with inv compose try_dps_True [OF p32 True] pool32_try [OF p32] show ?thesis
      by (simp add: inv_cnt_def note_try_def adds_def)
  next
    case False
    with inv compose try_False [OF False] show ?thesis
      by (simp add: inv_cnt_def note_try_def adds_def)
  qed
next
  case spawn
  from threads_bound(2) [OF inv arr spawn(1)]
  have "int32 (next_party_id s + 1)" using inv by (simp add: inv_cnt_def int32_def)
  then have "add32 (next_party_id s) 1 = next_party_id s + 1" by (rule add32_id)
  moreover have "\<not> served (new_party pid lo hi)" for pid lo hi
    by (simp add: served_def new_party_def)
  ultimately show ?thesis using inv spawn
    by (simp add: inv_cnt_def adds_def)
next
  case check
  with inv show ?thesis by (simp add: inv_cnt_def note_check_def adds_def)
next
  case sleep
  with inv show ?thesis by (simp add: inv_cnt_def adds_def)
next
  case join_arrival
  with inv show ?thesis by (simp add: inv_cnt_def adds_def)
next
  case (join_party j)
  with inv show ?thesis by (auto simp: inv_cnt_def adds_def less_Suc_eq)
next
  case (summary j)
  from inv summary(1) have j: "j \<le> length (party_threads s)"
      "\<forall>i < j. w_pc (party_threads s ! i) = WDone"
    by (simp_all add: inv_cnt_def)
  with summary(2) have "j = length (party_threads s)" by simp
  with j(2) have allDone: "\<forall>w \<in> set (party_threads s). w_pc w = WDone"
    by (auto simp: in_set_conv_nth)
  have len: "length (g_parties_served s) = nat (g_max_instances s)"
    using reg by (simp add: inv_reg_def)
  have nn: "\<forall>x \<in> set (g_parties_served s). 0 \<le> x" using inv by (simp add: inv_cnt_def)
  have "sum_list (g_parties_served s) = cnt served (party_threads s)"
    using inv by (simp add: inv_cnt_def)
  also have "\<dots> \<le> int (length (party_threads s))" by (rule cnt_le_length)
  finally have "sum_list (g_parties_served s) \<le> 2147483647"
    using threads_bound(1) [OF inv arr] by simp
  from sum32_sum_list [OF nn this] len
  have "sum32 (take (nat (g_max_instances s)) (g_parties_served s)) = sum_list (g_parties_served s)"
    by simp
  with inv summary allDone show ?thesis by (simp add: inv_cnt_def adds_def)
qed

lemma inv_cnt_Arr:
  assumes inv: "inv_cnt dps0 s" and arr: "inv_arr s"
    and st: "step (Arr at ah ad) s = Some s'"
  shows "inv_cnt dps0 s'"
  using st
proof (cases rule: step_Arr_cases)
  case add
  have "- 2147483648 \<le> g_dps (g_pool s) + ad"
    using inv add by (simp add: inv_cnt_def pool32_def int32_def)
  from wrap32_le [OF this] have "g_dps (add_players at ah ad (g_pool s)) \<le> g_dps (g_pool s) + ad"
    by (simp add: add_players_def add32_def)
  with inv add pool32_add [of at ah ad "g_pool s"] show ?thesis
    by (simp add: inv_cnt_def adds_def)
next
  case signal
  with inv show ?thesis by (simp add: inv_cnt_def adds_def)
next
  case message
  have "int32 (a_i s + 1)" using arr message(1) by (simp add: inv_arr_def int32_def)
  then have "add32 (a_i s) 1 = a_i s + 1" by (rule add32_id)
  with inv message show ?thesis by (simp add: inv_cnt_def adds_def)
qed

lemma inv_cnt_worker_frame:
  assumes inv: "inv_cnt dps0 s" and k: "k < length (party_threads s)"
    and nd: "w_pc (party_threads s ! k) \<noteq> WDone"
    and sv: "served w = served (party_threads s ! k)"
    and s': "party_threads s' = (party_threads s)[k := w]"
      "g_parties_served s' = g_parties_served s" "d_pc s' = d_pc s"
      "h_composed s' = h_composed s" "next_party_id s' = next_party_id s"
      "g_pool s' = g_pool s" "a_i s' = a_i s" "a_pc s' = a_pc s"
      "total_parties_all s' = total_parties_all s"
  shows "inv_cnt dps0 s'"
proof -
  have notexit: "d_pc s \<noteq> DExit"
  proof
    assume "d_pc s = DExit"
    with inv have "\<forall>w \<in> set (party_threads s). w_pc w = WDone" by (simp add: inv_cnt_def)
    with nth_mem [OF k] nd show False by auto
  qed
  have joined: "\<forall>j. d_pc s = DJoinParties j \<longrightarrow> j \<le> k"
  proof (rule ccontr)
    assume "\<not> (\<forall>j. d_pc s = DJoinParties j \<longrightarrow> j \<le> k)"
    then obtain j where "d_pc s = DJoinParties j" "k < j" by auto
    with inv have "w_pc (party_threads s ! k) = WDone" by (simp add: inv_cnt_def)
    with nd show False by simp
  qed
  have "cnt served (party_threads s') = cnt served (party_threads s)"
    using k sv s'(1) by (simp add: cnt_update)
  with inv s' notexit joined show ?thesis
    by (auto simp: inv_cnt_def adds_def nth_list_update)
qed

lemma inv_cnt_Work:
  assumes inv: "inv_cnt dps0 s" and arr: "inv_arr s" and reg: "inv_reg s"
    and st: "step (Work k d) s = Some s'"
  shows "inv_cnt dps0 s'"
  using st
proof (cases rule: step_Work_cases)
  case acquire
  then show ?thesis
    by (intro inv_cnt_worker_frame [OF inv acquire(1)]) (simp_all add: served_def)
next
  case claim
  then show ?thesis
    by (intro inv_cnt_worker_frame [OF inv claim(1)]) (simp_all add: served_def)
next
  case enter
  then show ?thesis
    by (intro inv_cnt_worker_frame [OF inv enter(1)]) (simp_all add: served_def)
next
  case update
  let ?i = "nat (instance_id (party_threads s ! k))"
  let ?ps = "g_parties_served s"
  have "occupies (party_threads s ! k)" using update(2) by (simp add: occupies_def)
  with reg update(1) have i: "?i < length ?ps" by (auto simp: inv_reg_def)
  have nn: "\<forall>x \<in> set ?ps. 0 \<le> x" using inv by (simp add: inv_cnt_def)
  have sum: "sum_list ?ps = cnt served (party_threads s)" using inv by (simp add: inv_cnt_def)
  have "?ps ! ?i \<le> sum_list ?ps" by (rule nth_le_sum_list [OF nn i])
  also have "\<dots> \<le> int (length (party_threads s))" using sum cnt_le_length by simp
  finally have "?ps ! ?i \<le> 1431655785" using threads_bound(1) [OF inv arr] by simp
  moreover have ge: "0 \<le> ?ps ! ?i" using nn i by simp
  ultimately have "int32 (?ps ! ?i + 1)" by (simp add: int32_def)
  then have inc: "add32 (?ps ! ?i) 1 = ?ps ! ?i + 1" by (rule add32_id)
  have notexit: "d_pc s \<noteq> DExit"
  proof
    assume "d_pc s = DExit"
    with inv have "\<forall>w \<in> set (party_threads s). w_pc w = WDone" by (simp add: inv_cnt_def)
    with nth_mem [OF update(1)] update(2) show False by auto
  qed
  have joined: "\<forall>j. d_pc s = DJoinParties j \<longrightarrow> j \<le> k"
  proof (rule ccontr)
    assume "\<not> (\<forall>j. d_pc s = DJoinParties j \<longrightarrow> j \<le> k)"
    then obtain j where "d_pc s = DJoinParties j" "k < j" by auto
    with inv have "w_pc (party_threads s ! k) = WDone" by (simp add: inv_cnt_def)
    with update(2) show False by simp
  qed
  have c: "cnt served (party_threads s') = cnt served (party_threads s) + 1"
    using update by (simp add: cnt_update served_def)
  have s: "sum_list (g_parties_served s') = sum_list ?ps + 1"
    using update i inc by (simp add: sum_list_upd)
  have nn': "\<forall>x \<in> set (g_parties_served s'). 0 \<le> x"
  proof
    fix x assume "x \<in> set (g_parties_served s')"
    then have "x \<in> insert (?ps ! ?i + 1) (set ?ps)"
      using update(4) inc set_update_subset_insert [of ?ps ?i "?ps ! ?i + 1"] by auto
    with nn ge show "0 \<le> x" by auto
  qed
  show ?thesis
    unfolding inv_cnt_def
  proof (intro conjI)
    show "sum_list (g_parties_served s') = cnt served (party_threads s')"
      using c s sum by simp
    show "\<forall>x \<in> set (g_parties_served s'). 0 \<le> x" by (rule nn')
    show "\<forall>j. d_pc s' = DJoinParties j \<longrightarrow>
        j \<le> length (party_threads s') \<and> (\<forall>i<j. w_pc (party_threads s' ! i) = WDone)"
      using inv update joined by (auto simp: inv_cnt_def nth_list_update)
    show "d_pc s' = DExit \<longrightarrow>
      (\<forall>w\<in>set (party_threads s'). w_pc w = WDone) \<and>
      total_parties_all s' = sum_list (g_parties_served s')"
      using update notexit by simp
  qed (use inv update in \<open>simp_all add: inv_cnt_def adds_def\<close>)
next
  case error
  have "occupies (party_threads s ! k)" using error(2) by (simp add: occupies_def)
  with reg error(1) have "0 \<le> instance_id (party_threads s ! k)" by (auto simp: inv_reg_def)
  with error(3) show ?thesis by simp
next
  case finish
  then show ?thesis
    by (intro inv_cnt_worker_frame [OF inv finish(1)]) (simp_all add: served_def)
next
  case release
  then show ?thesis
    by (intro inv_cnt_worker_frame [OF inv release(1)]) (simp_all add: served_def)
qed

lemma inv_cnt_step:
  "inv_cnt dps0 s \<Longrightarrow> inv_arr s \<Longrightarrow> inv_reg s \<Longrightarrow> step l s = Some s' \<Longrightarrow> inv_cnt dps0 s'"
  by (cases l) (auto intro: inv_cnt_Disp inv_cnt_Arr inv_cnt_Work)

lemma inv_cnt_init:
  assumes "main_start n tanks healers dps lo hi = Some s0"
  shows "inv_cnt dps s0"
  using assms
  by (cases rule: main_start_Some)
     (auto simp: inv_cnt_def init_sys_def adds_def pool32_def sum_list_replicate)

lemma exec_inv:
  assumes "I s" and "exec ls s = Some s'"
    and "\<And>l s s'. I s \<Longrightarrow> step l s = Some s' \<Longrightarrow> I s'"
  shows "I s'"
  using assms(1,2)
proof (induction ls arbitrary: s)
  case Nil
  then show ?case by simp
next
  case (Cons l ls)
  from Cons.prems(2) obtain s1 where s1: "step l s = Some s1" "exec ls s1 = Some s'"
    by (auto split: option.splits)
  from assms(3) [OF Cons.prems(1) s1(1)] have "I s1" .
  from Cons.IH [OF this s1(2)] show ?case .
qed

lemma run_Some:
  assumes "run n tanks healers dps lo hi ls = Some s"
  obtains s0 where "main_start n tanks healers dps lo hi = Some s0" "exec ls s0 = Some s"
  using assms by (auto simp: run_def split: option.splits)

lemma try_True:
  assumes "pool32 p" and "fst (try_form_party p)"
  shows "1 \<le> g_tanks p" "1 \<le> g_healers p" "3 \<le> g_dps p"
    "snd (try_form_party p)
       = \<lparr>g_tanks = g_tanks p - 1, g_healers = g_healers p - 1, g_dps = g_dps p - 3\<rparr>"
proof -
  from assms(2) show c: "1 \<le> g_tanks p" "1 \<le> g_healers p" "3 \<le> g_dps p"
    by (auto simp: try_form_party_def split: if_splits)
  have "sub32 (g_tanks p) 1 = g_tanks p - 1" "sub32 (g_healers p) 1 = g_healers p - 1"
    "sub32 (g_dps p) 3 = g_dps p - 3"
    using assms(1) c by (auto simp: pool32_def int32_def intro!: sub32_id)
  with c show "snd (try_form_party p)
       = \<lparr>g_tanks = g_tanks p - 1, g_healers = g_healers p - 1, g_dps = g_dps p - 3\<rparr>"
    by (simp add: try_form_party_def)
qed

lemma inv_pool_step:
  assumes inv: "inv_pool t0 h0 d0 s" and arr: "inv_arr s" and st: "step l s = Some s'"
  shows "inv_pool t0 h0 d0 s'"
proof (cases l)
  case Disp
  with st have "step Disp s = Some s'" by simp
  then show ?thesis
  proof (cases rule: step_Disp_cases)
    case compose
    have "adds s \<le> 10" using arr by (auto simp: inv_arr_def adds_def)
    with inv have p32: "pool32 (g_pool s)" by (simp add: inv_pool_def pool32_def int32_def)
    show ?thesis
    proof (cases "fst (try_form_party (g_pool s))")
      case True
      from try_True [OF p32 True] inv compose True show ?thesis
        by (simp add: inv_pool_def note_try_def adds_def)
    next
      case False
      with inv compose try_False [OF False] show ?thesis
        by (simp add: inv_pool_def note_try_def adds_def)
    qed
  next
    case spawn
    with inv show ?thesis by (simp add: inv_pool_def adds_def)
  next
    case check
    with inv show ?thesis by (simp add: inv_pool_def adds_def note_check_def)
  next
    case sleep
    with inv show ?thesis by (simp add: inv_pool_def adds_def)
  next
    case join_arrival
    with inv show ?thesis by (simp add: inv_pool_def adds_def)
  next
    case (join_party j)
    with inv show ?thesis by (simp add: inv_pool_def adds_def)
  next
    case (summary j)
    with inv show ?thesis by (simp add: inv_pool_def adds_def)
  qed
next
  case (Arr at ah ad)
  with st have "step (Arr at ah ad) s = Some s'" by simp
  then show ?thesis
  proof (cases rule: step_Arr_cases)
    case add
    have a: "adds s = a_i s" "a_i s + 1 \<le> 10" using arr add(1,2) by (auto simp: inv_arr_def adds_def)
    have "add32 (g_tanks (g_pool s)) at = g_tanks (g_pool s) + at"
      "add32 (g_healers (g_pool s)) ah = g_healers (g_pool s) + ah"
      "add32 (g_dps (g_pool s)) ad = g_dps (g_pool s) + ad"
      using inv add a by (auto simp: inv_pool_def int32_def intro!: add32_id)
    with inv add a show ?thesis
      by (simp add: inv_pool_def adds_def add_players_def)
  next
    case signal
    with inv show ?thesis by (simp add: inv_pool_def adds_def)
  next
    case message
    have "int32 (a_i s + 1)" using arr message(1) by (simp add: inv_arr_def int32_def)
    then have "add32 (a_i s) 1 = a_i s + 1" by (rule add32_id)
    with inv message show ?thesis by (simp add: inv_pool_def adds_def)
  qed
next
  case (Work k d)
  with st have "step (Work k d) s = Some s'" by simp
  then show ?thesis
    by (cases rule: step_Work_cases) (use inv in \<open>simp_all add: inv_pool_def adds_def\<close>)
qed

lemma pool_change:
  assumes "step l s = Some s'" and "g_pool s' \<noteq> g_pool s"
  shows "(l = Disp \<and> d_pc s = DTry \<and> g_pool s' = snd (try_form_party (g_pool s)))
       \<or> (\<exists>at ah ad. l = Arr at ah ad \<and> a_pc s = ALoop \<and> a_i s < cycles s
             \<and> g_pool s' = add_players at ah ad (g_pool s))"
proof (cases l)
  case Disp
  with assms(1) have "step Disp s = Some s'" by simp
  then show ?thesis using assms(2) Disp
    by (cases rule: step_Disp_cases) (simp_all add: note_try_def note_check_def)
next
  case (Arr at ah ad)
  with assms(1) have "step (Arr at ah ad) s = Some s'" by simp
  then show ?thesis using assms(2) Arr
    by (cases rule: step_Arr_cases) simp_all
next
  case (Work k d)
  with assms(1) have "step (Work k d) s = Some s'" by simp
  then show ?thesis using assms(2)
    by (cases rule: step_Work_cases) simp_all
qed

lemma won_split: "cnt won xs = cnt took_tanks xs + cnt (\<lambda>x. x = CTanks) xs"
proof (induction xs)
  case Nil
  then show ?case by simp
next
  case (Cons x xs)
  then show ?case by (cases x) auto
qed

lemma conc_inv_step:
  assumes inv: "conc_inv c" and st: "try_form_party_step k c = Some c'"
  shows "conc_inv c'"
proof -
  let ?ws = "callers c"
  from st have k: "k < length ?ws" by (simp add: try_form_party_step_def split: if_splits)
  have tt: "cnt took_tanks ?ws \<le> cnt won ?ws"
    by (rule cnt_mono) (rename_tac x, case_tac x, auto)
  have th: "cnt took_healers ?ws \<le> cnt won ?ws"
    by (rule cnt_mono) (rename_tac x, case_tac x, auto)
  have td: "cnt took_dps ?ws \<le> cnt won ?ws"
    by (rule cnt_mono) (rename_tac x, case_tac x, auto)
  note nn = cnt_nonneg [of took_tanks ?ws] cnt_nonneg [of took_healers ?ws]
    cnt_nonneg [of took_dps ?ws] cnt_nonneg [of won ?ws] cnt_nonneg [of lost ?ws]
  show ?thesis
  proof (cases "?ws ! k")
    case CStart
    with st k inv show ?thesis
      by (auto simp: try_form_party_step_def conc_inv_def cnt_update split: if_splits)
  next
    case CCheck
    have one: "cnt in_cs ?ws = 1"
      using inv cnt_pos [of k ?ws in_cs] k CCheck by (auto simp: conc_inv_def split: if_splits)
    show ?thesis
    proof (cases "g_tanks (c_pool c) \<ge> 1 \<and> g_healers (c_pool c) \<ge> 1 \<and> g_dps (c_pool c) \<ge> 3")
      case True
      then have "cnt took_tanks ?ws = 0" using inv nn by (simp add: conc_inv_def)
      moreover have "cnt (\<lambda>x. x = CTanks) ?ws < cnt in_cs ?ws"
        using k CCheck by (intro cnt_strict [of _ _ _ k]) auto
      then have "cnt (\<lambda>x. x = CTanks) ?ws = 0"
        using one cnt_nonneg [of "\<lambda>x. x = CTanks" ?ws] by simp
      moreover have "cnt won ?ws = cnt took_tanks ?ws + cnt (\<lambda>x. x = CTanks) ?ws"
        by (rule won_split)
      ultimately have w0: "cnt won ?ws = 0" using nn by simp
      with st k inv CCheck True nn show ?thesis
        by (auto simp: try_form_party_step_def conc_inv_def cnt_update)
    next
      case False
      then have "1 \<le> cnt took_tanks ?ws \<or> 1 \<le> cnt took_healers ?ws \<or> 1 \<le> cnt took_dps ?ws"
        using inv by (auto simp: conc_inv_def)
      then have "cnt won ?ws = 1" using tt th td inv by (auto simp: conc_inv_def)
      with st k inv CCheck False show ?thesis
        by (auto simp: try_form_party_step_def conc_inv_def cnt_update)
    qed
  next
    case CTanks
    have "0 \<le> g_tanks (c_pool c)" "g_tanks (c_pool c) \<le> 1"
      using inv tt nn by (auto simp: conc_inv_def)
    then have "sub32 (g_tanks (c_pool c)) 1 = g_tanks (c_pool c) - 1"
      by (intro sub32_id) (simp add: int32_def)
    with st k inv CTanks show ?thesis
      by (auto simp: try_form_party_step_def conc_inv_def cnt_update)
  next
    case CHealers
    have "0 \<le> g_healers (c_pool c)" "g_healers (c_pool c) \<le> 1"
      using inv th nn by (auto simp: conc_inv_def)
    then have "sub32 (g_healers (c_pool c)) 1 = g_healers (c_pool c) - 1"
      by (intro sub32_id) (simp add: int32_def)
    with st k inv CHealers show ?thesis
      by (auto simp: try_form_party_step_def conc_inv_def cnt_update)
  next
    case CDps
    have "0 \<le> g_dps (c_pool c)" "g_dps (c_pool c) \<le> 3"
      using inv td nn by (auto simp: conc_inv_def)
    then have "sub32 (g_dps (c_pool c)) 3 = g_dps (c_pool c) - 3"
      by (intro sub32_id) (simp add: int32_def)
    with st k inv CDps show ?thesis
      by (auto simp: try_form_party_step_def conc_inv_def cnt_update)
  next
    case (CUnlock r)
    have one: "cnt in_cs ?ws = 1"
      using inv cnt_pos [of k ?ws in_cs] k CUnlock by (auto simp: conc_inv_def split: if_splits)
    with st k inv CUnlock show ?thesis
      by (auto simp: try_form_party_step_def conc_inv_def cnt_update)
  next
    case (CReturned r)
    with st k show ?thesis by (simp add: try_form_party_step_def)
  qed
qed

lemma inv_all_run:
  assumes "run n tanks healers dps lo hi ls = Some s"
  shows "inv_reg s" and "inv_arr s" and "inv_disp s" and "inv_cnt dps s"
proof -
  from assms obtain s0 where s0: "main_start n tanks healers dps lo hi = Some s0"
    "exec ls s0 = Some s" by (rule run_Some)
  show "inv_reg s"
    by (rule exec_inv [where I = inv_reg, OF inv_reg_init [OF s0(1)] s0(2)]) (rule inv_reg_step)
  show a: "inv_arr s"
    by (rule exec_inv [where I = inv_arr, OF inv_arr_init [OF s0(1)] s0(2)]) (rule inv_arr_step)
  show "inv_disp s"
    by (rule exec_inv [where I = inv_disp, OF inv_disp_init [OF s0(1)] s0(2)]) (rule inv_disp_step)
  have "inv_cnt dps s0 \<and> inv_arr s0 \<and> inv_reg s0"
    using inv_cnt_init [OF s0(1)] inv_arr_init [OF s0(1)] inv_reg_init [OF s0(1)] by simp
  from this s0(2) have "inv_cnt dps s \<and> inv_arr s \<and> inv_reg s"
    by (rule exec_inv [where I = "\<lambda>s. inv_cnt dps s \<and> inv_arr s \<and> inv_reg s"])
       (auto intro: inv_cnt_step inv_arr_step inv_reg_step)
  then show "inv_cnt dps s" by simp
qed

lemma cnt_split3:
  "cnt holds_permit ws = cnt occupies ws + cnt in_transit ws"
proof (induction ws)
  case Nil
  then show ?case by simp
next
  case (Cons w ws)
  then show ?case by (cases "w_pc w") (auto simp: holds_permit_def occupies_def in_transit_def)
qed

lemma step_max_instances: "step l s = Some s' \<Longrightarrow> g_max_instances s' = g_max_instances s"
proof (cases l)
  case Disp
  assume "step l s = Some s'"
  with Disp have "step Disp s = Some s'" by simp
  then show ?thesis
    by (cases rule: step_Disp_cases) (simp_all add: note_try_def note_check_def)
next
  case (Arr at ah ad)
  assume "step l s = Some s'"
  with Arr have "step (Arr at ah ad) s = Some s'" by simp
  then show ?thesis by (cases rule: step_Arr_cases) simp_all
next
  case (Work k d)
  assume "step l s = Some s'"
  with Work have "step (Work k d) s = Some s'" by simp
  then show ?thesis by (cases rule: step_Work_cases) simp_all
qed

lemma run_max_instances:
  assumes "run n tanks healers dps lo hi ls = Some s"
  shows "g_max_instances s = n"
proof -
  from assms obtain s0 where s0: "main_start n tanks healers dps lo hi = Some s0"
    "exec ls s0 = Some s" by (rule run_Some)
  from s0(1) have "g_max_instances s0 = n"
    by (cases rule: main_start_Some) (simp add: init_sys_def)
  from this s0(2) show ?thesis
    by (rule exec_inv [where I = "\<lambda>s. g_max_instances s = n"])
       (simp add: step_max_instances)
qed

lemma done_change:
  assumes "step l s = Some s'"
  shows "(g_arrival_done s \<longrightarrow> g_arrival_done s')
       \<and> (g_arrival_done s' \<noteq> g_arrival_done s \<longrightarrow>
            (\<exists>at ah ad. l = Arr at ah ad) \<and> a_pc s = ALoop \<and> \<not> a_i s < cycles s
            \<and> a_pc s' = ADone)"
proof (cases l)
  case Disp
  with assms have "step Disp s = Some s'" by simp
  then show ?thesis
    by (cases rule: step_Disp_cases) (simp_all add: note_try_def note_check_def)
next
  case (Arr at ah ad)
  with assms have "step (Arr at ah ad) s = Some s'" by simp
  then show ?thesis using Arr
    by (cases rule: step_Arr_cases) simp_all
next
  case (Work k d)
  with assms have "step (Work k d) s = Some s'" by simp
  then show ?thesis
    by (cases rule: step_Work_cases) simp_all
qed

lemma conc_exec_inv:
  assumes "conc_inv c" and "conc_exec ks c = Some c'"
  shows "conc_inv c' \<and> length (callers c') = length (callers c)"
  using assms
proof (induction ks arbitrary: c)
  case Nil
  then show ?case by simp
next
  case (Cons k ks)
  from Cons.prems(2) obtain c1 where c1: "try_form_party_step k c = Some c1"
    "conc_exec ks c1 = Some c'"
    by (auto split: option.splits)
  have "length (callers c1) = length (callers c)"
    using c1(1) by (auto simp: try_form_party_step_def split: if_splits cpc.splits)
  with Cons.IH [OF conc_inv_step [OF Cons.prems(1) c1(1)] c1(2)] show ?case by simp
qed

lemma returned_counts:
  assumes "\<forall>x \<in> set xs. returned x"
  shows "cnt won xs = cnt (\<lambda>x. x = CReturned True) xs"
    and "cnt lost xs = cnt (\<lambda>x. x = CReturned False) xs"
    and "cnt won xs + cnt lost xs = int (length xs)"
    and "cnt took_tanks xs = cnt won xs"
    and "cnt took_healers xs = cnt won xs"
    and "cnt took_dps xs = cnt won xs"
  using assms
proof (induction xs)
  case Nil
  {
    case 1 show ?case by simp
  next
    case 2 show ?case by simp
  next
    case 3 show ?case by simp
  next
    case 4 show ?case by simp
  next
    case 5 show ?case by simp
  next
    case 6 show ?case by simp
  }
next
  case (Cons x xs)
  {
    case 1 with Cons.IH(1) show ?case by (cases x) auto
  next
    case 2 with Cons.IH(2) show ?case by (cases x) auto
  next
    case 3 with Cons.IH(3) show ?case by (cases x) auto
  next
    case 4 with Cons.IH(4) show ?case by (cases x) auto
  next
    case 5 with Cons.IH(5) show ?case by (cases x) auto
  next
    case 6 with Cons.IH(6) show ?case by (cases x) auto
  }
qed

lemma arrival_progress:
  assumes "inv_arr s" and "arrival_left s = m"
  shows "\<exists>s'. exec (replicate m (Arr 0 0 0)) s = Some s' \<and> g_arrival_done s'"
  using assms
proof (induction m arbitrary: s)
  case 0
  then have "a_pc s = ADone"
    by (cases "a_pc s") (auto simp: arrival_left_def inv_arr_def)
  with 0 show ?case by (simp add: inv_arr_def)
next
  case (Suc m)
  from Suc.prems(2) have nd: "a_pc s \<noteq> ADone" by (auto simp: arrival_left_def)
  have "\<exists>s1. step (Arr 0 0 0) s = Some s1 \<and> arrival_left s1 = m"
  proof (cases "a_pc s")
    case ALoop
    show ?thesis
    proof (cases "a_i s < cycles s")
      case True
      with ALoop Suc.prems show ?thesis
        by (auto simp: arrival_thread_func_step_def arrival_left_def)
    next
      case False
      with ALoop Suc.prems show ?thesis
        by (auto simp: arrival_thread_func_step_def arrival_left_def inv_arr_def)
    qed
  next
    case APrint
    have "int32 (a_i s + 1)" using Suc.prems(1) APrint by (simp add: inv_arr_def int32_def)
    then have "add32 (a_i s) 1 = a_i s + 1" by (rule add32_id)
    with APrint Suc.prems show ?thesis
      by (auto simp: arrival_thread_func_step_def arrival_left_def inv_arr_def nat_diff_distrib)
  next
    case ADone
    with nd show ?thesis by simp
  qed
  then obtain s1 where s1: "step (Arr 0 0 0) s = Some s1" "arrival_left s1 = m" by blast
  from inv_arr_step [OF Suc.prems(1) s1(1)] have "inv_arr s1" .
  from Suc.IH [OF this s1(2)] s1(1) show ?case by simp
qed

lemma arrival_left_bound: "inv_arr s \<Longrightarrow> arrival_left s \<le> 21"
  by (cases "a_pc s") (auto simp: arrival_left_def inv_arr_def)

lemma loop_exit_condition:
  assumes "run n tanks healers dps lo hi ls = Some s" and "left_loop (d_pc s)"
  shows "g_arrival_done s \<and> \<not> formed_any s \<and> h_last_try s = Some False \<and> h_seen_done s
       \<and> (h_seen_formed s \<longrightarrow> 1 \<le> h_tries_after s)"
  using inv_all_run(3) [OF assms(1)] assms(2) by (simp add: inv_disp_def)

lemma claim_finds_instance:
  assumes "run n tanks healers dps lo hi ls = Some s" and "k < length (party_threads s)"
    and "w_pc (party_threads s ! k) = WAcquired"
  shows "0 \<le> fst (claim_instance (g_max_instances s) (g_instance_status s))"
proof -
  from inv_reg_claim_some [OF inv_all_run(1) [OF assms(1)] assms(2,3)]
  show ?thesis by (auto simp: claim_instance_def)
qed

section \<open>Properties of the program\<close>

text \<open>
  C1. The loop is to end only when the arrivals are over and no party can be formed: it
  goes round again whenever an iteration formed a party. The code gives up the mutex
  between the failed call of \<^verbatim>\<open>try_form_party\<close> and the check of line 260. With an
  empty pool to start with, the call fails; the arrival thread then runs its ten cycles,
  the last adding one tank, one healer and three dps, and sets \<^verbatim>\<open>g_arrival_done\<close>;
  the check is the first to see the flag and ends the loop. No call is made after it,
  and the program ends with a full party in the pool, no party formed and a total of 0.
  With the same arrivals made before the call, the party is formed.
\<close>

theorem dispatcher_exit_strands_party:
  "map_option d_pc (run 1 0 0 0 1 2 race_trace) = Some DJoinArrival
   \<and> map_option h_seen_done (run 1 0 0 0 1 2 race_trace) = Some True
   \<and> map_option h_tries_after (run 1 0 0 0 1 2 race_trace) = Some 0
   \<and> map_option g_pool (run 1 0 0 0 1 2 race_trace)
       = Some \<lparr>g_tanks = 1, g_healers = 1, g_dps = 3\<rparr>
   \<and> fst (try_form_party \<lparr>g_tanks = 1, g_healers = 1, g_dps = 3\<rparr>)
   \<and> map_option d_pc (run 1 0 0 0 1 2 (race_trace @ [Disp, Disp])) = Some DExit
   \<and> map_option g_pool (run 1 0 0 0 1 2 (race_trace @ [Disp, Disp]))
       = Some \<lparr>g_tanks = 1, g_healers = 1, g_dps = 3\<rparr>
   \<and> map_option h_composed (run 1 0 0 0 1 2 (race_trace @ [Disp, Disp])) = Some 0
   \<and> map_option total_parties_all (run 1 0 0 0 1 2 (race_trace @ [Disp, Disp])) = Some 0
   \<and> map_option h_composed
         (run 1 0 0 0 1 2 (quiet_cycles 9 @ [Arr 1 1 3, Arr 0 0 0, Arr 0 0 0, Disp])) = Some 1"
  by code_simp

text \<open>
  C2. For every pool whose counters are C++ \<^verbatim>\<open>int\<close> values, \<^verbatim>\<open>try_form_party\<close>
  returns true exactly when tanks \<ge> 1, healers \<ge> 1 and dps \<ge> 3; then the pool
  afterwards is (tanks - 1, healers - 1, dps - 3); otherwise it returns false and the
  pool is unchanged.
\<close>

theorem try_form_party_spec:
  assumes "pool32 p"
  shows "(fst (try_form_party p) \<longleftrightarrow> g_tanks p \<ge> 1 \<and> g_healers p \<ge> 1 \<and> g_dps p \<ge> 3)
       \<and> (fst (try_form_party p) \<longrightarrow>
            snd (try_form_party p) =
              \<lparr>g_tanks = g_tanks p - 1, g_healers = g_healers p - 1, g_dps = g_dps p - 3\<rparr>)
       \<and> (\<not> fst (try_form_party p) \<longrightarrow> snd (try_form_party p) = p)"
proof -
  have a: "g_tanks p \<ge> 1 \<Longrightarrow> sub32 (g_tanks p) 1 = g_tanks p - 1"
    using assms by (simp add: sub32_def pool32_def int32_def wrap32_id)
  have b: "g_healers p \<ge> 1 \<Longrightarrow> sub32 (g_healers p) 1 = g_healers p - 1"
    using assms by (simp add: sub32_def pool32_def int32_def wrap32_id)
  have c: "g_dps p \<ge> 3 \<Longrightarrow> sub32 (g_dps p) 3 = g_dps p - 3"
    using assms by (simp add: sub32_def pool32_def int32_def wrap32_id)
  show ?thesis
    using a b c by (simp add: try_form_party_def)
qed

theorem try_form_party_spec_witness:
  "pool32 \<lparr>g_tanks = 2, g_healers = 1, g_dps = 7\<rparr>
   \<and> try_form_party \<lparr>g_tanks = 2, g_healers = 1, g_dps = 7\<rparr>
       = (True, \<lparr>g_tanks = 1, g_healers = 0, g_dps = 4\<rparr>)
   \<and> pool32 \<lparr>g_tanks = 2, g_healers = 0, g_dps = 7\<rparr>
   \<and> try_form_party \<lparr>g_tanks = 2, g_healers = 0, g_dps = 7\<rparr>
       = (False, \<lparr>g_tanks = 2, g_healers = 0, g_dps = 7\<rparr>)"
proof -
  have h1: "pool32 \<lparr>g_tanks = 2, g_healers = 1, g_dps = 7\<rparr>"
    by (simp add: pool32_def int32_def)
  have h2: "pool32 \<lparr>g_tanks = 2, g_healers = 0, g_dps = 7\<rparr>"
    by (simp add: pool32_def int32_def)
  show ?thesis
    using h1 h2 try_form_party_spec [OF h1] try_form_party_spec [OF h2]
    by (simp add: prod_eq_iff)
qed

text \<open>
  C3 (amended). In every state of a run with n \<ge> 1 instances the number of active
  slots is at least 0 and at most n minus the permits of the semaphore, which is at most
  n; the two differ by the threads in transit, which hold a permit and have not yet
  claimed their instance or have already given it back.
\<close>

theorem slots_bounded:
  assumes "run n tanks healers dps lo hi ls = Some s"
  shows "g_max_instances s = n \<and> 1 \<le> n
       \<and> 0 \<le> active_slots s
       \<and> active_slots s \<le> n - g_instance_slots s
       \<and> n - g_instance_slots s \<le> n
       \<and> active_slots s + cnt in_transit (party_threads s) = n - g_instance_slots s"
proof -
  have n: "g_max_instances s = n" by (rule run_max_instances [OF assms])
  from assms obtain s0 where "main_start n tanks healers dps lo hi = Some s0"
    by (rule run_Some)
  then have n1: "1 \<le> n" by (cases rule: main_start_Some)
  have reg: "inv_reg s" by (rule inv_all_run(1) [OF assms])
  then have a: "0 \<le> g_instance_slots s"
    "g_instance_slots s + cnt holds_permit (party_threads s) = n"
    "active_slots s = cnt occupies (party_threads s)"
    using n by (simp_all add: inv_reg_def)
  from a cnt_split3 [of "party_threads s"] cnt_nonneg [of in_transit "party_threads s"]
    cnt_nonneg [of occupies "party_threads s"] n n1
  show ?thesis by simp
qed

theorem slots_bounded_witness:
  "run 1 1 1 3 1 2 [Disp, Disp, Work 0 1, Work 0 1] \<noteq> None
   \<and> active_slots (the (run 1 1 1 3 1 2 [Disp, Disp, Work 0 1, Work 0 1])) = 1
   \<and> g_instance_slots (the (run 1 1 1 3 1 2 [Disp, Disp, Work 0 1, Work 0 1])) = 0"
proof -
  have e: "run 1 1 1 3 1 2 [Disp, Disp, Work 0 1, Work 0 1] \<noteq> None" by code_simp
  have g: "g_instance_slots (the (run 1 1 1 3 1 2 [Disp, Disp, Work 0 1, Work 0 1])) = 0"
    by code_simp
  have t: "cnt in_transit (party_threads (the (run 1 1 1 3 1 2 [Disp, Disp, Work 0 1, Work 0 1]))) = 0"
    by code_simp
  from e obtain s where s: "run 1 1 1 3 1 2 [Disp, Disp, Work 0 1, Work 0 1] = Some s" by auto
  from slots_bounded [OF s] g t s e show ?thesis by simp
qed

text \<open>
  C3 as stated fails: after the first thread's \<^verbatim>\<open>acquire\<close> and before its claim, no
  slot is active while the one permit is taken.
\<close>

theorem slots_not_equal_permits:
  "map_option active_slots (run 1 1 1 3 1 2 [Disp, Disp, Work 0 1]) = Some 0
   \<and> map_option g_instance_slots (run 1 1 1 3 1 2 [Disp, Disp, Work 0 1]) = Some 0
   \<and> map_option g_max_instances (run 1 1 1 3 1 2 [Disp, Disp, Work 0 1]) = Some 1
   \<and> active_slots (the (run 1 1 1 3 1 2 [Disp, Disp, Work 0 1]))
       \<noteq> g_max_instances (the (run 1 1 1 3 1 2 [Disp, Disp, Work 0 1]))
           - g_instance_slots (the (run 1 1 1 3 1 2 [Disp, Disp, Work 0 1]))"
  by code_simp

text \<open>
  C4. At all times the parties served add up to the number of threads past their update,
  and the threads started (with the one about to start) are the successful calls of
  \<^verbatim>\<open>try_form_party\<close>. Once every thread has been joined, all have ended and the sum
  of \<^verbatim>\<open>g_parties_served\<close> over the n slots is the number of successful calls; the
  summary's \<^verbatim>\<open>total_parties_all\<close> is that number.
\<close>

theorem parties_served_total:
  assumes "run n tanks healers dps lo hi ls = Some s"
  shows "sum_list (g_parties_served s) = cnt served (party_threads s)
       \<and> length (g_parties_served s) = nat n
       \<and> int (length (party_threads s)) + (if d_pc s = DSpawn then 1 else 0) = int (h_composed s)
       \<and> (d_pc s = DExit \<or> d_pc s = DJoinParties (length (party_threads s)) \<longrightarrow>
            (\<forall>w \<in> set (party_threads s). w_pc w = WDone)
            \<and> sum_list (g_parties_served s) = int (h_composed s))
       \<and> (d_pc s = DExit \<longrightarrow> total_parties_all s = int (h_composed s))"
proof -
  have c: "inv_cnt dps s" by (rule inv_all_run(4) [OF assms])
  have reg: "inv_reg s" by (rule inv_all_run(1) [OF assms])
  have n: "g_max_instances s = n" by (rule run_max_instances [OF assms])
  have sum: "sum_list (g_parties_served s) = cnt served (party_threads s)"
    and len: "int (length (party_threads s)) + (if d_pc s = DSpawn then 1 else 0) = int (h_composed s)"
    using c by (simp_all add: inv_cnt_def)
  have all: "\<forall>w \<in> set (party_threads s). w_pc w = WDone"
    if "d_pc s = DExit \<or> d_pc s = DJoinParties (length (party_threads s))"
    using that
  proof
    assume "d_pc s = DExit"
    with c show ?thesis by (simp add: inv_cnt_def)
  next
    assume "d_pc s = DJoinParties (length (party_threads s))"
    with c have "\<forall>i < length (party_threads s). w_pc (party_threads s ! i) = WDone"
      by (simp add: inv_cnt_def)
    then show ?thesis by (auto simp: in_set_conv_nth)
  qed
  have tot: "sum_list (g_parties_served s) = int (h_composed s)"
    if h: "d_pc s = DExit \<or> d_pc s = DJoinParties (length (party_threads s))"
  proof -
    from all [OF h] have "\<forall>w \<in> set (party_threads s). served w" by (simp add: served_def)
    then have "cnt served (party_threads s) = int (length (party_threads s))"
      by (rule cnt_all_eq)
    with sum len h show ?thesis by auto
  qed
  have ex: "total_parties_all s = int (h_composed s)" if h: "d_pc s = DExit"
  proof -
    from c h have "total_parties_all s = sum_list (g_parties_served s)" by (simp add: inv_cnt_def)
    with tot h show ?thesis by simp
  qed
  from sum len all tot ex reg n show ?thesis by (simp add: inv_reg_def)
qed

theorem parties_served_total_witness:
  "run 1 1 1 3 1 2 full_trace \<noteq> None
   \<and> d_pc (the (run 1 1 1 3 1 2 full_trace)) = DExit
   \<and> h_composed (the (run 1 1 1 3 1 2 full_trace)) = 1
   \<and> g_parties_served (the (run 1 1 1 3 1 2 full_trace)) = [1]
   \<and> total_parties_all (the (run 1 1 1 3 1 2 full_trace)) = 1"
proof -
  have e: "run 1 1 1 3 1 2 full_trace \<noteq> None" by code_simp
  have d: "d_pc (the (run 1 1 1 3 1 2 full_trace)) = DExit" by code_simp
  have h: "h_composed (the (run 1 1 1 3 1 2 full_trace)) = 1" by code_simp
  have g: "g_parties_served (the (run 1 1 1 3 1 2 full_trace)) = [1]" by code_simp
  from e obtain s where s: "run 1 1 1 3 1 2 full_trace = Some s" by auto
  from parties_served_total [OF s] d h g s e show ?thesis by simp
qed

text \<open>
  C5. The validation is meant to leave 0 \<le> t1 \<le> t2 \<le> 15. The code clamps only
  \<open>t2\<close>: with the inputs t1 = 20 and t2 = 30 nothing is swapped, \<open>t2\<close> becomes 15 and
  the run continues with the bounds (20, 15), which the worker hands to its uniform
  distribution as lower and upper end.
\<close>

theorem input_validation_unclamped_t1:
  "input_validation 1 0 0 0 20 30 = ([WarnClamp], Inr (20, 15))"
  by (simp add: input_validation_def)

text \<open>
  C6 (amended). A thread that holds a permit and finds no empty instance keeps
  \<^verbatim>\<open>instance_id = -1\<close> and runs on to its end: it prints its entry with instance -1,
  prints the error message in place of the update (status and statistics stay as they
  are), prints its finish line, releases its permit and ends as every other thread does.
\<close>

theorem no_instance_worker_continues:
  assumes "k < length (party_threads s)" and "w_pc (party_threads s ! k) = WAcquired"
    and "''empty'' \<notin> set (take (nat (g_max_instances s)) (g_instance_status s))"
  shows "exec [Work k d1, Work k d2, Work k d3, Work k d4, Work k d5] s =
     Some (s\<lparr>cout := cout s @
                [Entered (party_id (party_threads s ! k)) (- 1) (duration (party_threads s ! k))
                   (print_status s),
                 ErrNoInstance (party_id (party_threads s ! k)),
                 Finished (party_id (party_threads s ! k)) (- 1) (print_status s)],
             g_instance_slots := release (g_instance_slots s),
             party_threads := (party_threads s)[k := (party_threads s ! k)
                \<lparr>instance_id := - 1, w_pc := WDone\<rparr>]\<rparr>)"
proof -
  from assms(3) have "find_empty (take (nat (g_max_instances s)) (g_instance_status s)) 0 = None"
    by (simp add: find_empty_None)
  then have c: "claim_instance (g_max_instances s) (g_instance_status s)
                = (- 1, g_instance_status s)"
    by (simp add: claim_instance_def)
  show ?thesis
    using assms(1,2) c by (simp add: run_dungeon_step_def print_status_def)
qed

theorem no_instance_worker_continues_witness:
  "map_option cout (exec [Work 0 0, Work 0 0, Work 0 0, Work 0 0, Work 0 0] jammed)
     = Some [Entered 1 (- 1) 1 [''active''], ErrNoInstance 1, Finished 1 (- 1) [''active'']]"
proof -
  have k: "0 < length (party_threads jammed)"
    and p: "w_pc (party_threads jammed ! 0) = WAcquired"
    and e: "''empty'' \<notin> set (take (nat (g_max_instances jammed)) (g_instance_status jammed))"
    by (simp_all add: jammed_def init_sys_def new_party_def)
  from no_instance_worker_continues [OF k p e, of 0 0 0 0 0]
  show ?thesis by (simp add: jammed_def init_sys_def new_party_def print_status_def)
qed

text \<open>
  C6 as stated fails: in such a state the thread is not stopped; it ends in the same
  control state, with the same finish message and the same release, as the thread of an
  ordinary run.
\<close>

theorem no_instance_not_fatal:
  "map_option cout (exec [Work 0 0, Work 0 0, Work 0 0, Work 0 0, Work 0 0] jammed)
     = Some [Entered 1 (- 1) 1 [''active''], ErrNoInstance 1, Finished 1 (- 1) [''active'']]
   \<and> map_option party_threads (exec [Work 0 0, Work 0 0, Work 0 0, Work 0 0, Work 0 0] jammed)
     = Some [\<lparr>party_id = 1, min_time = 1, max_time = 2, duration = 1, instance_id = - 1,
              w_pc = WDone\<rparr>]
   \<and> map_option g_instance_slots (exec [Work 0 0, Work 0 0, Work 0 0, Work 0 0, Work 0 0] jammed)
     = Some 1
   \<and> map_option party_threads (run 1 1 1 3 1 1 [Disp, Disp, Work 0 1, Work 0 1, Work 0 1, Work 0 1, Work 0 1, Work 0 1])
     = Some [\<lparr>party_id = 1, min_time = 1, max_time = 1, duration = 1, instance_id = 0,
              w_pc = WDone\<rparr>]"
  by code_simp

text \<open>
  C7. \<^verbatim>\<open>g_arrival_done\<close> is false when the threads start; in every state of a run it
  is set exactly when the arrival thread has ended; a step never clears it, and the only
  step that changes it is the arrival thread's, after its tenth cycle, which ends that
  thread; once it is set the arrival thread takes no step. The arrival thread never
  waits: from every state of a run its own remaining steps, at most 21, set the flag.
\<close>

theorem arrival_done_monotonic:
  assumes "run n tanks healers dps lo hi ls = Some s"
  shows "(ls = [] \<longrightarrow> \<not> g_arrival_done s)
       \<and> (g_arrival_done s \<longleftrightarrow> a_pc s = ADone)
       \<and> (\<forall>l s'. step l s = Some s' \<longrightarrow>
             (g_arrival_done s \<longrightarrow> g_arrival_done s')
             \<and> (g_arrival_done s' \<noteq> g_arrival_done s \<longrightarrow>
                  (\<exists>at ah ad. l = Arr at ah ad) \<and> a_pc s = ALoop \<and> a_i s = 10
                  \<and> a_pc s' = ADone))
       \<and> (g_arrival_done s \<longrightarrow> (\<forall>at ah ad. step (Arr at ah ad) s = None))
       \<and> arrival_left s \<le> 21
       \<and> (\<exists>s'. exec (replicate (arrival_left s) (Arr 0 0 0)) s = Some s' \<and> g_arrival_done s')"
proof -
  have arr: "inv_arr s" by (rule inv_all_run(2) [OF assms])
  note live = arrival_left_bound [OF arr] arrival_progress [OF arr refl]
  have "\<not> g_arrival_done s" if "ls = []"
  proof -
    from assms obtain s0 where s0: "main_start n tanks healers dps lo hi = Some s0"
      "exec ls s0 = Some s" by (rule run_Some)
    from s0(2) that have "s = s0" by simp
    with s0(1) show ?thesis by (cases rule: main_start_Some) (simp add: init_sys_def)
  qed
  moreover have "g_arrival_done s \<longleftrightarrow> a_pc s = ADone" using arr by (simp add: inv_arr_def)
  moreover have "step (Arr at ah ad) s = None" if "g_arrival_done s" for at ah ad
    using that arr by (simp add: inv_arr_def arrival_thread_func_step_def)
  moreover have "(g_arrival_done s \<longrightarrow> g_arrival_done s')
             \<and> (g_arrival_done s' \<noteq> g_arrival_done s \<longrightarrow>
                  (\<exists>at ah ad. l = Arr at ah ad) \<and> a_pc s = ALoop \<and> a_i s = 10
                  \<and> a_pc s' = ADone)" if "step l s = Some s'" for l s'
    using done_change [OF that] arr by (auto simp: inv_arr_def)
  ultimately show ?thesis using live by blast
qed

theorem arrival_done_monotonic_witness:
  "run 1 0 0 0 1 2 (quiet_cycles 10) \<noteq> None
   \<and> \<not> g_arrival_done (the (run 1 0 0 0 1 2 (quiet_cycles 10)))
   \<and> map_option g_arrival_done (step (Arr 0 0 0) (the (run 1 0 0 0 1 2 (quiet_cycles 10)))) = Some True
   \<and> a_i (the (run 1 0 0 0 1 2 (quiet_cycles 10))) = 10
   \<and> run 1 0 0 0 1 2 (quiet_cycles 10 @ [Arr 0 0 0]) \<noteq> None
   \<and> g_arrival_done (the (run 1 0 0 0 1 2 (quiet_cycles 10 @ [Arr 0 0 0])))
   \<and> step (Arr 0 0 0) (the (run 1 0 0 0 1 2 (quiet_cycles 10 @ [Arr 0 0 0]))) = None"
proof -
  have e: "run 1 0 0 0 1 2 (quiet_cycles 10) \<noteq> None" by code_simp
  have e2: "run 1 0 0 0 1 2 (quiet_cycles 10 @ [Arr 0 0 0]) \<noteq> None" by code_simp
  have d: "\<not> g_arrival_done (the (run 1 0 0 0 1 2 (quiet_cycles 10)))" by code_simp
  have d2: "g_arrival_done (the (run 1 0 0 0 1 2 (quiet_cycles 10 @ [Arr 0 0 0])))" by code_simp
  have st: "map_option g_arrival_done (step (Arr 0 0 0) (the (run 1 0 0 0 1 2 (quiet_cycles 10)))) = Some True"
    by code_simp
  from e obtain s where s: "run 1 0 0 0 1 2 (quiet_cycles 10) = Some s" by auto
  from e2 obtain s2 where s2: "run 1 0 0 0 1 2 (quiet_cycles 10 @ [Arr 0 0 0]) = Some s2" by auto
  from st s obtain s' where s': "step (Arr 0 0 0) s = Some s'" "g_arrival_done s'" by auto
  have d': "\<not> g_arrival_done s" and d2': "g_arrival_done s2" using d d2 s s2 by simp_all
  from arrival_done_monotonic [OF s] s' d' have "a_i s = 10" by blast
  moreover from arrival_done_monotonic [OF s2] d2' have "step (Arr 0 0 0) s2 = None" by blast
  ultimately show ?thesis using e e2 d d2 st s s2 by simp
qed

text \<open>
  C8 (amended). If the initial counts are non-negative and leave room for the ten
  arrival cycles in a 32-bit \<^verbatim>\<open>int\<close> (tanks and healers at most 2147483627, dps at
  most 2147483587), then the three counters are at least 0 in every state of a run; and
  a step changes the pool only as \<^verbatim>\<open>try_form_party\<close> does or as the locked addition
  of an arrival cycle does.
\<close>

theorem pool_nonneg:
  assumes "run n tanks healers dps lo hi ls = Some s"
    and "tanks \<le> 2147483627" and "healers \<le> 2147483627" and "dps \<le> 2147483587"
  shows "0 \<le> g_tanks (g_pool s) \<and> 0 \<le> g_healers (g_pool s) \<and> 0 \<le> g_dps (g_pool s)
       \<and> (\<forall>l s'. step l s = Some s' \<longrightarrow> g_pool s' \<noteq> g_pool s \<longrightarrow>
             (l = Disp \<and> d_pc s = DTry \<and> g_pool s' = snd (try_form_party (g_pool s)))
             \<or> (\<exists>at ah ad. l = Arr at ah ad \<and> a_pc s = ALoop \<and> a_i s < cycles s
                   \<and> g_pool s' = add_players at ah ad (g_pool s)))"
proof -
  from assms(1) obtain s0 where s0: "main_start n tanks healers dps lo hi = Some s0"
    "exec ls s0 = Some s" by (rule run_Some)
  from s0(1) assms(2-4) have "inv_pool tanks healers dps s0"
    by (cases rule: main_start_Some) (simp add: inv_pool_def init_sys_def adds_def)
  with inv_arr_init [OF s0(1)] have "inv_pool tanks healers dps s0 \<and> inv_arr s0" by simp
  from this s0(2) have "inv_pool tanks healers dps s \<and> inv_arr s"
    by (rule exec_inv [where I = "\<lambda>s. inv_pool tanks healers dps s \<and> inv_arr s"])
       (auto intro: inv_pool_step inv_arr_step)
  then show ?thesis using pool_change by (simp add: inv_pool_def)
qed

theorem pool_nonneg_witness:
  "run 1 1 1 3 1 2 [Arr 2 0 6, Disp] \<noteq> None
   \<and> g_pool (the (run 1 1 1 3 1 2 [Arr 2 0 6, Disp])) = \<lparr>g_tanks = 2, g_healers = 0, g_dps = 6\<rparr>
   \<and> 0 \<le> g_tanks (g_pool (the (run 1 1 1 3 1 2 [Arr 2 0 6, Disp])))"
proof -
  have e: "run 1 1 1 3 1 2 [Arr 2 0 6, Disp] \<noteq> None" by code_simp
  have g: "g_pool (the (run 1 1 1 3 1 2 [Arr 2 0 6, Disp])) = \<lparr>g_tanks = 2, g_healers = 0, g_dps = 6\<rparr>"
    by code_simp
  from e obtain s where s: "run 1 1 1 3 1 2 [Arr 2 0 6, Disp] = Some s" by auto
  from pool_nonneg [OF s] g s e show ?thesis by simp
qed

text \<open>
  C8 as stated fails: with 2147483647 tanks to start with, an arrival cycle that adds one
  tank takes \<^verbatim>\<open>g_tanks\<close> beyond the largest \<^verbatim>\<open>int\<close>, and the counter wraps around
  to a negative value.
\<close>

theorem pool_overflow:
  "map_option g_pool (run 1 2147483647 0 0 1 2 [Arr 1 0 0])
     = Some \<lparr>g_tanks = - 2147483648, g_healers = 0, g_dps = 0\<rparr>
   \<and> g_tanks (g_pool (the (run 1 2147483647 0 0 1 2 [Arr 1 0 0]))) < 0"
  by code_simp

text \<open>
  C9. \<open>k\<close> threads call \<^verbatim>\<open>try_form_party\<close> on a pool of one tank, one healer and three
  dps. In every schedule at most one caller ever finds the condition true; and once all
  have returned (\<open>k \<ge> 1\<close>), exactly one has returned true, the other \<open>k - 1\<close> false,
  and the pool is empty.
\<close>

theorem try_form_party_atomic:
  assumes "conc_exec sched (conc_init k \<lparr>g_tanks = 1, g_healers = 1, g_dps = 3\<rparr>) = Some c"
  shows "cnt won (callers c) \<le> 1
       \<and> length (callers c) = k
       \<and> ((\<forall>x \<in> set (callers c). returned x) \<and> 1 \<le> k \<longrightarrow>
            cnt (\<lambda>x. x = CReturned True) (callers c) = 1
            \<and> cnt (\<lambda>x. x = CReturned False) (callers c) = int k - 1
            \<and> c_pool c = \<lparr>g_tanks = 0, g_healers = 0, g_dps = 0\<rparr>)"
proof -
  have "conc_inv (conc_init k \<lparr>g_tanks = 1, g_healers = 1, g_dps = 3\<rparr>)"
    by (simp add: conc_inv_def conc_init_def cnt_replicate)
  from conc_exec_inv [OF this assms]
  have inv: "conc_inv c" and len: "length (callers c) = k" by (simp_all add: conc_init_def)
  have fin: "cnt (\<lambda>x. x = CReturned True) (callers c) = 1
            \<and> cnt (\<lambda>x. x = CReturned False) (callers c) = int k - 1
            \<and> c_pool c = \<lparr>g_tanks = 0, g_healers = 0, g_dps = 0\<rparr>"
    if r: "\<forall>x \<in> set (callers c). returned x" and k: "1 \<le> k"
  proof -
    note rc = returned_counts [OF r]
    have c1: "cnt won (callers c) \<le> 1"
      and c2: "0 < cnt lost (callers c) \<longrightarrow> cnt won (callers c) = 1"
      using inv by (simp_all add: conc_inv_def)
    have "1 \<le> int (length (callers c))" using len k by simp
    with rc(3) have "1 \<le> cnt won (callers c) + cnt lost (callers c)" by simp
    with c1 c2 cnt_nonneg [of lost "callers c"] have w: "cnt won (callers c) = 1" by arith
    have p: "g_tanks (c_pool c) = 0" "g_healers (c_pool c) = 0" "g_dps (c_pool c) = 0"
      using inv rc(4-6) w by (simp_all add: conc_inv_def)
    have "cnt (\<lambda>x. x = CReturned False) (callers c) = int k - 1"
      using rc(2,3) w len by simp
    moreover have "c_pool c = \<lparr>g_tanks = 0, g_healers = 0, g_dps = 0\<rparr>"
      using p by (cases "c_pool c") simp
    ultimately show ?thesis using rc(1) w by simp
  qed
  from inv len fin show ?thesis by (simp add: conc_inv_def)
qed

theorem try_form_party_atomic_witness:
  "conc_exec [1, 1, 0]
      (conc_init 3 \<lparr>g_tanks = 1, g_healers = 1, g_dps = 3\<rparr>) = None
   \<and> map_option callers (conc_exec [1, 1, 1, 1, 1, 1, 0, 0, 0, 2, 2, 2]
      (conc_init 3 \<lparr>g_tanks = 1, g_healers = 1, g_dps = 3\<rparr>))
     = Some [CReturned False, CReturned True, CReturned False]"
proof -
  have e: "conc_exec [1, 1, 1, 1, 1, 1, 0, 0, 0, 2, 2, 2]
      (conc_init 3 \<lparr>g_tanks = 1, g_healers = 1, g_dps = 3\<rparr>) \<noteq> None" by code_simp
  have r: "map_option callers (conc_exec [1, 1, 1, 1, 1, 1, 0, 0, 0, 2, 2, 2]
      (conc_init 3 \<lparr>g_tanks = 1, g_healers = 1, g_dps = 3\<rparr>))
     = Some [CReturned False, CReturned True, CReturned False]" by code_simp
  have b: "conc_exec [1, 1, 0]
      (conc_init 3 \<lparr>g_tanks = 1, g_healers = 1, g_dps = 3\<rparr>) = None" by code_simp
  from e obtain c where c: "conc_exec [1, 1, 1, 1, 1, 1, 0, 0, 0, 2, 2, 2]
      (conc_init 3 \<lparr>g_tanks = 1, g_healers = 1, g_dps = 3\<rparr>) = Some c" by auto
  from try_form_party_atomic [OF c] r b c show ?thesis by simp
qed

text \<open>
  C10. A negative duration bound is never a configuration error, and raising it to 0
  prints nothing. For every input with a capacity of at least 1, non-negative player
  counts and \<open>t1 < 0\<close> or \<open>t2 < 0\<close>: the validation does not fail and the run continues
  with the bounds (0, b), where b is the larger bound, raised to 0 and cut at 15, so that
  0 \<le> t1 \<le> t2 \<le> 15; the output and the result are those for the bounds with each
  negative one replaced by 0, so the raise has no message of its own: nothing is printed
  but the swap warning, exactly when \<open>t2 < 0 < t1\<close>, and the clamp warning, exactly when
  a bound is above 15.
\<close>

theorem input_validation_negative_bounds:
  assumes "n \<ge> 1" and "tanks \<ge> 0" and "healers \<ge> 0" and "dps \<ge> 0"
    and "t1 < 0 \<or> t2 < 0"
  shows "input_validation n tanks healers dps t1 t2
           = ((if t2 < 0 \<and> 0 < t1 then [WarnSwap] else [])
                @ (if 15 < max t1 t2 then [WarnClamp] else []),
              Inr (0, min 15 (max 0 (max t1 t2))))
       \<and> (\<exists>a b. snd (input_validation n tanks healers dps t1 t2) = Inr (a, b)
              \<and> 0 \<le> a \<and> a \<le> b \<and> b \<le> 15)
       \<and> input_validation n tanks healers dps t1 t2
           = input_validation n tanks healers dps (max 0 t1) (max 0 t2)
       \<and> set (fst (input_validation n tanks healers dps t1 t2)) \<subseteq> {WarnSwap, WarnClamp}
       \<and> (t1 < 0 \<and> t2 < 0 \<longrightarrow>
            input_validation n tanks healers dps t1 t2 = ([], Inr (0, 0)))
       \<and> (t1 < 0 \<and> t2 \<ge> 0 \<longrightarrow>
            input_validation n tanks healers dps t1 t2
              = (if t2 > 15 then [WarnClamp] else [], Inr (0, min t2 15)))
       \<and> (t2 < 0 \<and> t1 \<ge> 0 \<longrightarrow>
            input_validation n tanks healers dps t1 t2
              = ((if 0 < t1 then [WarnSwap] else []) @ (if t1 > 15 then [WarnClamp] else []),
                 Inr (0, min t1 15)))"
  using assms by (auto simp add: input_validation_def Let_def max_def min_def)

theorem input_validation_negative_bounds_witness:
  "input_validation 1 0 0 0 (- 4) (- 9) = ([], Inr (0, 0))
   \<and> input_validation 1 0 0 0 5 (- 3) = ([WarnSwap], Inr (0, 5))
   \<and> input_validation 1 0 0 0 (- 3) 20 = ([WarnClamp], Inr (0, 15))
   \<and> input_validation 1 0 0 0 40 (- 1) = ([WarnSwap, WarnClamp], Inr (0, 15))"
proof -
  have h1: "(1::int) \<ge> 1" by simp
  have h0: "(0::int) \<ge> 0" by simp
  have a: "(- 4 :: int) < 0 \<or> (- 9 :: int) < 0" by simp
  have b: "(5 :: int) < 0 \<or> (- 3 :: int) < 0" by simp
  have c: "(- 3 :: int) < 0 \<or> (20 :: int) < 0" by simp
  have d: "(40 :: int) < 0 \<or> (- 1 :: int) < 0" by simp
  show ?thesis
    using input_validation_negative_bounds [OF h1 h0 h0 h0 a]
      input_validation_negative_bounds [OF h1 h0 h0 h0 b]
      input_validation_negative_bounds [OF h1 h0 h0 h0 c]
      input_validation_negative_bounds [OF h1 h0 h0 h0 d]
    by simp
qed

end
